theory Spec2Isabelle
  imports Main "HOL-Library.Monad_Syntax"
begin

section \<open>Python values used by \<open>api/multipart.py\<close>\<close>

text \<open>
  The module is Python 2 code. Byte strings (\<open>str\<close>) and the text obtained from them by a
  latin1 decode are both lists of 8-bit characters; where \<open>str\<close> and \<open>unicode\<close> methods
  differ inside that range (\<open>strip\<close>, \<open>lower\<close>) the functions below take a flag telling
  which of the two types the receiver has.
\<close>

type_synonym bytes = string

abbreviation (input) CR :: char where "CR \<equiv> CHR 0x0D"
abbreviation (input) LF :: char where "LF \<equiv> CHR 0x0A"
abbreviation (input) TAB :: char where "TAB \<equiv> CHR 0x09"
abbreviation (input) DQ :: char where "DQ \<equiv> CHR 0x22"
abbreviation (input) BSL :: char where "BSL \<equiv> CHR 0x5C"
abbreviation (input) CRLF :: bytes where "CRLF \<equiv> [CR, LF]"

text \<open>Every exception the modelled code can raise. \<open>MultipartError\<close> carries which of the
  module's \<open>raise MultipartError(...)\<close> statements fired; the others are Python's own.\<close>

datatype multipart_error =
    BoundaryTooLong          \<comment> \<open>Boundary does not fit into buffer_size.\<close>
  | NoStartBoundary          \<comment> \<open>Stream does not start with boundary\<close>
  | MemoryLimit              \<comment> \<open>Memory limit reached.\<close>
  | DiskLimit                \<comment> \<open>Disk limit reached.\<close>
  | UnexpectedEnd            \<comment> \<open>Unexpected end of multipart stream.\<close>
  | HeaderEndOfLine          \<comment> \<open>Unexpected end of line in header.\<close>
  | HeaderNoColon            \<comment> \<open>Syntax error in header: No colon.\<close>
  | BodyExceedsLength        \<comment> \<open>Size of body exceeds Content-Length header.\<close>
  | DispositionMissing       \<comment> \<open>Content-Disposition header is missing.\<close>

datatype error =
    MultipartError multipart_error
  | IndexError
  | AttributeError
  | ValueError
  | IOError
  | UnmodelledCodec string   \<comment> \<open>a charset whose codec this development does not describe\<close>

subsection \<open>String methods\<close>

definition is_space :: "bool \<Rightarrow> char \<Rightarrow> bool" where
  \<comment> \<open>whitespace of \<open>str.strip()\<close>; for \<open>unicode\<close> also U+001C..U+001F, U+0085 and U+00A0\<close>
  "is_space uni c \<longleftrightarrow>
     c \<in> set [CHR '' '', TAB, LF, CR, CHR 0x0B, CHR 0x0C] \<or>
     (uni \<and> c \<in> set [CHR 0x1C, CHR 0x1D, CHR 0x1E, CHR 0x1F, CHR 0x85, CHR 0xA0])"

definition py_strip :: "bool \<Rightarrow> string \<Rightarrow> string" where
  "py_strip uni s = rev (dropWhile (is_space uni) (rev (dropWhile (is_space uni) s)))"

definition lower_char :: "bool \<Rightarrow> char \<Rightarrow> char" where
  \<comment> \<open>\<open>A..Z\<close>; for \<open>unicode\<close> also the capital letters U+00C0..U+00DE of latin1 (not U+00D7)\<close>
  "lower_char uni c =
     (let n = (of_char c :: nat) in
      if 65 \<le> n \<and> n \<le> 90 then char_of (n + 32)
      else if uni \<and> 192 \<le> n \<and> n \<le> 222 \<and> n \<noteq> 215 then char_of (n + 32)
      else c)"

definition py_lower :: "bool \<Rightarrow> string \<Rightarrow> string" where
  "py_lower uni s = map (lower_char uni) s"

definition endswith :: "'a list \<Rightarrow> 'a list \<Rightarrow> bool" where
  "endswith s suf \<longleftrightarrow> length suf \<le> length s \<and> drop (length s - length suf) s = suf"

fun take_int :: "int \<Rightarrow> 'a list \<Rightarrow> 'a list" where
  \<comment> \<open>the first \<open>n\<close> elements, for an integer \<open>n\<close>; none when \<open>n \<le> 0\<close>\<close>
  "take_int n [] = []"
| "take_int n (x # xs) = (if n \<le> 0 then [] else x # take_int (n - 1) xs)"

fun drop_int :: "int \<Rightarrow> 'a list \<Rightarrow> 'a list" where
  \<comment> \<open>all but the first \<open>n\<close> elements\<close>
  "drop_int n [] = []"
| "drop_int n (x # xs) = (if n \<le> 0 then x # xs else drop_int (n - 1) xs)"

lemma take_int_eq [simp]: "take_int n xs = take (nat n) xs"
proof (induction xs arbitrary: n)
  case Nil
  show ?case by simp
next
  case (Cons x xs)
  show ?case
  proof (cases "n \<le> 0")
    case True
    then show ?thesis by simp
  next
    case False
    then have "nat n = Suc (nat (n - 1))" by simp
    with False Cons show ?thesis by simp
  qed
qed

lemma drop_int_eq [simp]: "drop_int n xs = drop (nat n) xs"
proof (induction xs arbitrary: n)
  case Nil
  show ?case by simp
next
  case (Cons x xs)
  show ?case
  proof (cases "n \<le> 0")
    case True
    then show ?thesis by simp
  next
    case False
    then have "nat n = Suc (nat (n - 1))" by simp
    with False Cons show ?thesis by simp
  qed
qed

definition split_first :: "char \<Rightarrow> string \<Rightarrow> string \<times> string" where
  \<comment> \<open>\<open>s.split(c, 1)\<close> for a string that contains \<open>c\<close>\<close>
  "split_first c s = (takeWhile (\<lambda>x. x \<noteq> c) s, drop 1 (dropWhile (\<lambda>x. x \<noteq> c) s))"

definition split_last :: "char \<Rightarrow> string \<Rightarrow> string" where
  \<comment> \<open>\<open>s.split(c)[-1]\<close>: what follows the last \<open>c\<close>, or all of \<open>s\<close>\<close>
  "split_last c s = rev (takeWhile (\<lambda>x. x \<noteq> c) (rev s))"

fun replace2 :: "char \<Rightarrow> char \<Rightarrow> string \<Rightarrow> string \<Rightarrow> string" where
  \<comment> \<open>\<open>s.replace(old, new)\<close> for a two-character \<open>old = [a, b]\<close>: leftmost, non-overlapping\<close>
  "replace2 a b new (x # y # r) =
     (if x = a \<and> y = b then new @ replace2 a b new r else x # replace2 a b new (y # r))"
| "replace2 a b new r = r"

fun splitl :: "bytes \<Rightarrow> bytes \<Rightarrow> bytes list" where
  \<comment> \<open>the first argument is the line read so far\<close>
  "splitl cur [] = (if cur = [] then [] else [cur])"
| "splitl cur [c] = [cur @ [c]]"
| "splitl cur (c # d # r) =
     (if c = CR \<and> d = LF then (cur @ [c, d]) # splitl [] r
      else if c = LF \<or> c = CR then (cur @ [c]) # splitl [] (d # r)
      else splitl (cur @ [c]) (d # r))"

definition splitlines :: "bytes \<Rightarrow> bytes list" where
  \<comment> \<open>\<open>s.splitlines(True)\<close> of a byte string: lines end at \<open>\n\<close>, \<open>\r\<close> or \<open>\r\n\<close>, kept\<close>
  "splitlines s = splitl [] s"

section \<open>Header parser\<close>

subsection \<open>The regular expression \<open>_re_option\<close>\<close>

text \<open>
  \<^verbatim>\<open>(?:;|^)\s*([^S]+)\s*=\s*((?:[^S]+|"(?:\\.|[^"])*"))\<close> where \<open>S\<close> is \<open>_special\<close>.
  Python's matcher backtracks: each piece of the pattern offers its ways to match in
  order of preference (a greedy repetition the longest first), and the match is the
  first combination that succeeds. A piece is modelled by the list of its ways to match,
  each with the input left over.
\<close>

definition special :: string where
  "special = ''()<>@,;:'' @ [BSL, DQ] @ ''/[]?={} '' @ [TAB]"

definition nonspecial :: "char \<Rightarrow> bool" where
  "nonspecial c \<longleftrightarrow> c \<notin> set special"

definition re_space :: "char \<Rightarrow> bool" where
  \<comment> \<open>\<open>\s\<close> without the UNICODE flag\<close>
  "re_space c \<longleftrightarrow> c \<in> set [CHR '' '', TAB, LF, CR, CHR 0x0C, CHR 0x0B]"

definition re_star :: "(char \<Rightarrow> bool) \<Rightarrow> string \<Rightarrow> (string \<times> string) list" where
  \<comment> \<open>\<open>[class]*\<close>: (matched, left over), longest first\<close>
  "re_star P s = map (\<lambda>k. (take k s, drop k s)) (rev [0 ..< Suc (length (takeWhile P s))])"

definition re_plus :: "(char \<Rightarrow> bool) \<Rightarrow> string \<Rightarrow> (string \<times> string) list" where
  "re_plus P s = map (\<lambda>k. (take k s, drop k s)) (rev [1 ..< Suc (length (takeWhile P s))])"

definition re_lit :: "char \<Rightarrow> string \<Rightarrow> string list" where
  "re_lit c s = (case s of [] \<Rightarrow> [] | x # r \<Rightarrow> if x = c then [r] else [])"

fun re_qtail :: "string \<Rightarrow> string list" where
  \<comment> \<open>\<open>(?:\\.|[^"])*"\<close>: the inputs left over after the closing quote; \<open>.\<close> is not \<open>\n\<close>\<close>
  "re_qtail [] = []"
| "re_qtail [c] = (if c = DQ then [[]] else [])"
| "re_qtail (c # d # r) =
     (if c = BSL \<and> d \<noteq> LF then re_qtail r else [])
     @ (if c \<noteq> DQ then re_qtail (d # r) else [])
     @ (if c = DQ then [d # r] else [])"

definition re_qstr :: "string \<Rightarrow> (string \<times> string) list" where
  "re_qstr s = (case s of [] \<Rightarrow> []
     | c # r \<Rightarrow> if c = DQ
         then map (\<lambda>rest. (take (length s - length rest) s, rest)) (re_qtail r) else [])"

definition re_value :: "string \<Rightarrow> (string \<times> string) list" where
  "re_value s = re_plus nonspecial s @ re_qstr s"

definition re_option :: "bool \<Rightarrow> string \<Rightarrow> (string \<times> string \<times> string) list" where
  \<comment> \<open>the matches of \<open>_re_option\<close> that begin at the head of the input, as
      (group 1, group 2, left over); the flag says whether the input is the whole string,
      where \<open>^\<close> matches\<close>
  "re_option at_start s = do {
     s1 \<leftarrow> re_lit (CHR '';'') s @ (if at_start then [s] else []);
     (w1, s2) \<leftarrow> re_star re_space s1;
     (key, s3) \<leftarrow> re_plus nonspecial s2;
     (w2, s4) \<leftarrow> re_star re_space s3;
     s5 \<leftarrow> re_lit (CHR ''='') s4;
     (w3, s6) \<leftarrow> re_star re_space s5;
     (val, s7) \<leftarrow> re_value s6;
     [(key, val, s7)]
   }"

subsection \<open>Every match consumes input\<close>

lemma re_qtail_shorter: "r' \<in> set (re_qtail r) \<Longrightarrow> length r' < length r"
proof (induction r arbitrary: r' rule: re_qtail.induct)
  case 1
  then show ?case by simp
next
  case (2 c)
  then show ?case by (simp split: if_splits)
next
  case (3 c d r)
  from "3.prems" consider "c = BSL" "d \<noteq> LF" "r' \<in> set (re_qtail r)"
    | "c \<noteq> DQ" "r' \<in> set (re_qtail (d # r))" | "r' = d # r"
    by (auto split: if_splits)
  then show ?case
  proof cases
    case 1
    then have "length r' < length r" using "3.IH"(1) by blast
    then show ?thesis by simp
  next
    case 2
    then have "length r' < length (d # r)" using "3.IH"(2) by blast
    then show ?thesis by simp
  next
    case 3
    then show ?thesis by simp
  qed
qed

lemma re_star_len: "(y, z) \<in> set (re_star P x) \<Longrightarrow> length z \<le> length x"
  by (auto simp: re_star_def)

lemma re_plus_len: "(y, z) \<in> set (re_plus P x) \<Longrightarrow> length z < length x \<and> y \<noteq> []"
proof -
  assume "(y, z) \<in> set (re_plus P x)"
  then obtain k where k: "1 \<le> k" "k \<le> length (takeWhile P x)" "y = take k x" "z = drop k x"
    by (auto simp: re_plus_def)
  moreover have "length (takeWhile P x) \<le> length x" by (rule length_takeWhile_le)
  ultimately show ?thesis by auto
qed

lemma re_lit_len: "z \<in> set (re_lit c x) \<Longrightarrow> length z < length x"
  by (cases x) (auto simp: re_lit_def split: if_splits)

lemma re_qstr_len: "(y, z) \<in> set (re_qstr x) \<Longrightarrow> length z < length x \<and> y \<noteq> []"
proof -
  assume a: "(y, z) \<in> set (re_qstr x)"
  then obtain r where r: "x = DQ # r" "z \<in> set (re_qtail r)" "y = take (length x - length z) x"
    by (cases x) (auto simp: re_qstr_def split: if_splits)
  then have "length z < length r" using re_qtail_shorter by blast
  with r show ?thesis by auto
qed

lemma re_value_len: "(y, z) \<in> set (re_value x) \<Longrightarrow> length z < length x \<and> y \<noteq> []"
  unfolding re_value_def using re_plus_len [of y z nonspecial x] re_qstr_len [of y z x] by auto

lemma re_option_parts:
  assumes "(k, v, rest) \<in> set (re_option b s)"
  obtains s1 w1 s2 s3 w2 s4 s5 w3 s6 where
    "s1 \<in> set (re_lit (CHR '';'') s) \<or> (b \<and> s1 = s)" "(w1, s2) \<in> set (re_star re_space s1)"
    "(k, s3) \<in> set (re_plus nonspecial s2)" "(w2, s4) \<in> set (re_star re_space s3)"
    "s5 \<in> set (re_lit (CHR ''='') s4)" "(w3, s6) \<in> set (re_star re_space s5)"
    "(v, rest) \<in> set (re_value s6)"
proof -
  from assms show ?thesis
    unfolding re_option_def List.bind_def
    by (auto split: if_splits intro: that)
qed

lemma re_option_shorter:
  assumes "(k, v, rest) \<in> set (re_option b s)"
  shows "length rest < length s"
proof -
  from assms obtain s1 w1 s2 s3 w2 s4 s5 w3 s6 where p:
    "s1 \<in> set (re_lit (CHR '';'') s) \<or> (b \<and> s1 = s)" "(w1, s2) \<in> set (re_star re_space s1)"
    "(k, s3) \<in> set (re_plus nonspecial s2)" "(w2, s4) \<in> set (re_star re_space s3)"
    "s5 \<in> set (re_lit (CHR ''='') s4)" "(w3, s6) \<in> set (re_star re_space s5)"
    "(v, rest) \<in> set (re_value s6)"
    by (rule re_option_parts)
  have "length s1 \<le> length s" using p(1) re_lit_len by (auto dest: less_imp_le)
  moreover have "length s2 \<le> length s1" using p(2) by (rule re_star_len)
  moreover have "length s3 < length s2" using p(3) re_plus_len by blast
  moreover have "length s4 \<le> length s3" using p(4) by (rule re_star_len)
  moreover have "length s5 < length s4" using p(5) by (rule re_lit_len)
  moreover have "length s6 \<le> length s5" using p(6) by (rule re_star_len)
  moreover have "length rest < length s6" using p(7) re_value_len by blast
  ultimately show ?thesis by linarith
qed

lemma re_option_value_nonempty: "(k, v, rest) \<in> set (re_option b s) \<Longrightarrow> v \<noteq> []"
  using re_value_len by (elim re_option_parts) blast

function finditer :: "bool \<Rightarrow> string \<Rightarrow> (string \<times> string) list" where
  \<comment> \<open>\<open>_re_option.finditer\<close>: groups 1 and 2 of the successive matches, scanning left to
      right; the flag is true at the beginning of the string only\<close>
  "finditer at_start s =
     (case re_option at_start s of
        (key, val, rest) # _ \<Rightarrow> (key, val) # finditer False rest
      | [] \<Rightarrow> (case s of [] \<Rightarrow> [] | _ # r \<Rightarrow> finditer False r))"
  by pat_completeness auto
termination
proof (relation "measure (\<lambda>(b, s). length s)")
  show "wf (measure (\<lambda>(b, s). length s))" by simp
next
  fix at_start :: bool and s :: string and x xs key y val rest
  assume "re_option at_start s = x # xs" "(key, y) = x" "(val, rest) = y"
  then have "(key, val, rest) \<in> set (re_option at_start s)" by simp
  then show "((False, rest), at_start, s) \<in> measure (\<lambda>(b, s). length s)"
    using re_option_shorter by simp
next
  fix at_start :: bool and s :: string and x r
  assume "s = x # r"
  then show "((False, r), at_start, s) \<in> measure (\<lambda>(b, s). length s)" by simp
qed

subsection \<open>\<open>header_unquote\<close> and \<open>parse_options_header\<close>\<close>

definition header_unquote :: "string \<Rightarrow> bool \<Rightarrow> error + string" where
  \<comment> \<open>\<open>val[0]\<close> of an empty string raises IndexError; slices never raise\<close>
  "header_unquote val filename =
     (if val = [] then Inl IndexError
      else if hd val = DQ \<and> last val = DQ then
        let v = butlast (tl val);
            v' = (if take 2 (drop 1 v) = [CHR '':'', BSL] \<or> take 2 v = [BSL, BSL]
                  then split_last BSL v else v)
        in Inr (replace2 BSL DQ [DQ] (replace2 BSL BSL [BSL] v'))
      else Inr val)"

fun store_options ::
  "bool \<Rightarrow> (string \<times> string) list \<Rightarrow> (string \<rightharpoonup> string) \<Rightarrow> error + (string \<rightharpoonup> string)" where
  \<comment> \<open>the body of the \<open>for match in ...\<close> loop of \<open>parse_options_header\<close>\<close>
  "store_options uni [] options = Inr options"
| "store_options uni ((g1, g2) # ms) options =
     (let key = py_lower uni g1 in
      case header_unquote g2 (key = ''filename'') of
        Inl e \<Rightarrow> Inl e
      | Inr val \<Rightarrow> store_options uni ms (options(key \<mapsto> val)))"

definition parse_options_header ::
  "bool \<Rightarrow> string \<Rightarrow> (string \<rightharpoonup> string) option \<Rightarrow> error + (string \<times> (string \<rightharpoonup> string))" where
  \<comment> \<open>the flag: whether \<open>header\<close> is a \<open>unicode\<close> object; \<open>options or {}\<close> is the given
      dict unless it is None (or empty)\<close>
  "parse_options_header uni header options =
     (if CHR '';'' \<notin> set header then Inr (py_strip uni (py_lower uni header), Map.empty)
      else
        let (ctype, tail) = split_first (CHR '';'') header;
            options' = (case options of None \<Rightarrow> Map.empty | Some d \<Rightarrow> d)
        in case store_options uni (finditer True tail) options' of
             Inl e \<Rightarrow> Inl e
           | Inr d \<Rightarrow> Inr (ctype, d))"


section \<open>Body sinks\<close>

text \<open>
  A part keeps its body in an \<open>io.BytesIO\<close> or, once it is too large, in a
  \<open>TemporaryFile\<close>. Both are a byte sequence with a position. An in-memory buffer never
  fails; a file on disk may, and \<open>failing\<close> says whether the device under it answers a read
  with an \<open>IOError\<close>.
\<close>

datatype sink_kind = BytesIO | TemporaryFile

record sink =
  kind :: sink_kind
  content :: bytes
  pos :: nat
  failing :: bool

definition new_sink :: "sink_kind \<Rightarrow> sink" where
  "new_sink k = \<lparr>kind = k, content = [], pos = 0, failing = False\<rparr>"

definition sink_seek :: "sink \<Rightarrow> nat \<Rightarrow> sink" where
  "sink_seek f n = f\<lparr>pos := n\<rparr>"

definition sink_tell :: "sink \<Rightarrow> nat" where
  "sink_tell f = pos f"

definition sink_write :: "sink \<Rightarrow> bytes \<Rightarrow> sink" where
  \<comment> \<open>writes at the position, over what is there; a position past the end is first
      reached with zero bytes\<close>
  "sink_write f b =
     (let c = content f;
          before = take (pos f) c @ replicate (pos f - length c) (CHR 0x00)
      in f\<lparr>content := before @ b @ drop (pos f + length b) c, pos := pos f + length b\<rparr>)"

definition sink_read :: "sink \<Rightarrow> int \<Rightarrow> (error + bytes) \<times> sink" where
  \<comment> \<open>\<open>read(n)\<close>: up to \<open>n\<close> bytes from the position, everything left when \<open>n < 0\<close>\<close>
  "sink_read f n =
     (if kind f = TemporaryFile \<and> failing f then (Inl IOError, f)
      else
        let avail = drop (pos f) (content f);
            got = (if n < 0 then avail else take_int n avail)
        in (Inr got, f\<lparr>pos := pos f + length got\<rparr>))"

function copy_loop :: "sink \<Rightarrow> sink \<Rightarrow> int \<Rightarrow> int \<Rightarrow> int \<Rightarrow> error + (int \<times> sink \<times> sink)" where
  \<comment> \<open>the \<open>while 1\<close> of \<open>copy_file\<close>; the last argument is the local \<open>size\<close>\<close>
  "copy_loop stream target maxread buffer_size sz =
     (let to_read = (if maxread < 0 then buffer_size else min buffer_size (maxread - sz)) in
      case sink_read stream to_read of
        (Inl e, stream') \<Rightarrow> Inl e
      | (Inr part, stream') \<Rightarrow>
          if part = [] then Inr (sz, stream', target)
          else copy_loop stream' (sink_write target part) maxread buffer_size
                 (sz + int (length part)))"
  by pat_completeness auto
termination
proof (relation "measure (\<lambda>(stream, target, maxread, buffer_size, sz).
                   length (content stream) - pos stream)")
  show "wf (measure (\<lambda>(stream, target, maxread, buffer_size, sz).
              length (content stream) - pos stream))" by simp
next
  fix stream target :: sink and maxread buffer_size sz to_read :: int
    and x :: "(error + bytes) \<times> sink" and r stream' part
  assume a: "to_read = (if maxread < 0 then buffer_size else min buffer_size (maxread - sz))"
    "(r, stream') = sink_read stream to_read" "r = Inr part" "part \<noteq> []"
  then have "pos stream' = pos stream + length part"
    and "length part \<le> length (content stream) - pos stream"
    and "content stream' = content stream"
    by (auto simp: sink_read_def Let_def split: if_splits)
  with a(4) show "((stream', sink_write target part, maxread, buffer_size,
                     sz + int (length part)), stream, target, maxread, buffer_size, sz)
        \<in> measure (\<lambda>(stream, target, maxread, buffer_size, sz).
              length (content stream) - pos stream)"
    by (cases part) auto
qed

definition copy_file :: "sink \<Rightarrow> sink \<Rightarrow> int \<Rightarrow> int \<Rightarrow> error + (int \<times> sink \<times> sink)" where
  \<comment> \<open>returns the number of bytes copied and both files as the copy leaves them\<close>
  "copy_file stream target maxread buffer_size = copy_loop stream target maxread buffer_size 0"


section \<open>\<open>MultipartPart\<close>\<close>

text \<open>
  An attribute that does not exist yet (\<open>options\<close> and \<open>content_length\<close> before
  \<open>finish_header\<close>) is \<open>None\<close>, and reading it raises \<open>AttributeError\<close>; \<open>part_file\<close> is
  \<open>self.file\<close>, \<open>None\<close> while the source holds \<open>False\<close> there.
\<close>

record part =
  headerlist :: "(string \<times> string) list"
  headers :: "(string \<times> string) list option"
  part_file :: "sink option"
  part_size :: int                       \<comment> \<open>\<open>self.size\<close>\<close>
  buf :: bytes                           \<comment> \<open>\<open>self._buf\<close>\<close>
  disposition :: "string option"
  name :: "string option"
  filename :: "string option"
  content_type :: "string option"
  charset :: string
  memfile_limit :: int
  buffer_size :: int
  options :: "(string \<rightharpoonup> string) option"
  content_length :: "int option"

definition MultipartPart :: "int \<Rightarrow> int \<Rightarrow> string \<Rightarrow> part" where
  \<comment> \<open>\<open>__init__(buffer_size, memfile_limit, charset)\<close>\<close>
  "MultipartPart bsize mlimit cs =
     \<lparr>headerlist = [], headers = None, part_file = None, part_size = 0, buf = [],
      disposition = None, name = None, filename = None, content_type = None,
      charset = cs, memfile_limit = mlimit, buffer_size = bsize,
      options = None, content_length = None\<rparr>"

definition decode :: "string \<Rightarrow> bytes \<Rightarrow> error + string" where
  \<comment> \<open>\<open>line.decode(charset)\<close>. latin1 maps every byte to the code point of the same number;
      no other codec is described here\<close>
  "decode cs b = (if cs = ''latin1'' then Inr b else Inl (UnmodelledCodec cs))"

definition headers_get :: "(string \<times> string) list \<Rightarrow> string \<Rightarrow> string \<Rightarrow> string" where
  \<comment> \<open>\<open>wsgiref.headers.Headers.get\<close>: the first header whose name matches without regard to
      case\<close>
  "headers_get hs nm dflt =
     (case find (\<lambda>(k, v). py_lower True k = py_lower False nm) hs of
        None \<Rightarrow> dflt
      | Some (k, v) \<Rightarrow> v)"

definition is_digit :: "char \<Rightarrow> bool" where
  "is_digit c \<longleftrightarrow> 48 \<le> (of_char c :: nat) \<and> (of_char c :: nat) \<le> 57"

definition py_int :: "string \<Rightarrow> error + int" where
  \<comment> \<open>\<open>int(s)\<close> of a text: decimal digits with an optional sign, white space around them
      allowed; anything else raises ValueError\<close>
  "py_int s =
     (let t = py_strip True s;
          neg = (t \<noteq> [] \<and> hd t = CHR ''-'');
          d = (if t \<noteq> [] \<and> (hd t = CHR ''-'' \<or> hd t = CHR ''+'') then tl t else t)
      in if d \<noteq> [] \<and> list_all is_digit d
         then Inr ((if neg then - 1 else 1) *
                   int (foldl (\<lambda>a c. 10 * a + (of_char c - 48)) 0 d))
         else Inl ValueError)"

definition finish_header :: "part \<Rightarrow> error + part" where
  "finish_header p =
     (let p1 = p\<lparr>part_file := Some (new_sink BytesIO), headers := Some (headerlist p)\<rparr>;
          cdis = headers_get (headerlist p) ''Content-Disposition'' [];
          ctype = headers_get (headerlist p) ''Content-Type'' []
      in if cdis = [] then Inl (MultipartError DispositionMissing)
         else case parse_options_header True cdis None of
           Inl e \<Rightarrow> Inl e
         | Inr (disp, opts) \<Rightarrow>
            (case parse_options_header True ctype None of
               Inl e \<Rightarrow> Inl e
             | Inr (ct, opts2) \<Rightarrow>
                (case py_int (headers_get (headerlist p) ''Content-Length'' ''-1'') of
                   Inl e \<Rightarrow> Inl e
                 | Inr n \<Rightarrow>
                     Inr (p1\<lparr>disposition := Some disp, options := Some opts,
                             name := opts ''name'', filename := opts ''filename'',
                             content_type := Some ct,
                             charset := (case opts2 ''charset'' of
                                           None \<Rightarrow> charset p
                                         | Some c \<Rightarrow> if c = [] then charset p else c),
                             content_length := Some n\<rparr>))))"

definition write_header :: "part \<Rightarrow> bytes \<Rightarrow> bytes \<Rightarrow> error + part" where
  "write_header p line nl =
     (case decode (if charset p = [] then ''latin1'' else charset p) line of
        Inl e \<Rightarrow> Inl e
      | Inr text \<Rightarrow>
          if nl = [] then Inl (MultipartError HeaderEndOfLine)
          else if py_strip True text = [] then finish_header p
          else if hd text \<in> set [CHR '' '', TAB] \<and> headerlist p \<noteq> [] then
            (let (nm, val) = last (headerlist p)
             in Inr (p\<lparr>headerlist := butlast (headerlist p) @ [(nm, val @ py_strip True text)]\<rparr>))
          else if CHR '':'' \<notin> set text then Inl (MultipartError HeaderNoColon)
          else
            (let (nm, val) = split_first (CHR '':'') text
             in Inr (p\<lparr>headerlist := headerlist p @ [(py_strip True nm, py_strip True val)]\<rparr>)))"

definition write_body :: "part \<Rightarrow> bytes \<Rightarrow> bytes \<Rightarrow> error + part" where
  "write_body p line nl =
     (if line = [] \<and> nl = [] then Inr p
      else case part_file p of
        None \<Rightarrow> Inl AttributeError
      | Some f \<Rightarrow>
          let sz = part_size p + int (length line) + int (length (buf p));
              f' = sink_write f (buf p @ line)
          in case content_length p of
               None \<Rightarrow> Inl AttributeError
             | Some cl \<Rightarrow>
                 if cl > 0 \<and> sz > cl then Inl (MultipartError BodyExceedsLength)
                 else if sz > memfile_limit p \<and> kind f' = BytesIO then
                   (case copy_file (sink_seek f' 0) (new_sink TemporaryFile) sz (buffer_size p) of
                      Inl e \<Rightarrow> Inl e
                    | Inr (n, old, new) \<Rightarrow> Inr (p\<lparr>part_size := sz, buf := nl, part_file := Some new\<rparr>))
                 else Inr (p\<lparr>part_size := sz, buf := nl, part_file := Some f'\<rparr>))"

definition feed :: "part \<Rightarrow> bytes \<Rightarrow> bytes \<Rightarrow> error + part" where
  "feed p line nl = (if part_file p \<noteq> None then write_body p line nl else write_header p line nl)"

definition is_buffered :: "part \<Rightarrow> bool" where
  \<comment> \<open>\<open>isinstance(self.file, BytesIO)\<close>\<close>
  "is_buffered p = (case part_file p of None \<Rightarrow> False | Some f \<Rightarrow> kind f = BytesIO)"

definition raw :: "part \<Rightarrow> (error + bytes) \<times> part" where
  \<comment> \<open>the property \<open>raw\<close>: the value or the exception, and the part as the call leaves it;
      the \<open>finally\<close> clause runs on both ways out\<close>
  "raw p =
     (case part_file p of
        None \<Rightarrow> (Inl AttributeError, p)
      | Some f \<Rightarrow>
          let pos0 = sink_tell f;
              (r, f') = sink_read (sink_seek f 0) (- 1)
          in (r, p\<lparr>part_file := Some (sink_seek f' pos0)\<rparr>))"



section \<open>Line reader\<close>

text \<open>
  The byte source is a file-like object whose \<open>read(n)\<close> hands out the next \<open>n\<close> bytes
  (all that is left when \<open>n < 0\<close>, fewer at the end) and an empty string once it is
  exhausted. \<open>reads\<close> counts the calls.
\<close>

record stream =
  data :: bytes
  reads :: nat

definition stream_read :: "stream \<Rightarrow> int \<Rightarrow> bytes \<times> stream" where
  "stream_read s n =
     (let got = (if n < 0 then data s else take_int n (data s))
      in (got, \<lparr>data = drop (length got) (data s), reads = Suc (reads s)\<rparr>))"

lemma stream_read_data: "stream_read st n = (chunk, st') \<Longrightarrow> data st = chunk @ data st'"
  by (auto simp: stream_read_def Let_def min_def split: if_splits)

lemma stream_read_reads: "stream_read st n = (chunk, st') \<Longrightarrow> reads st' = Suc (reads st)"
  by (auto simp: stream_read_def Let_def split: if_splits)

definition py_take :: "int \<Rightarrow> 'a list \<Rightarrow> 'a list" where
  \<comment> \<open>the slice \<open>s[:i]\<close>; a negative index counts from the end\<close>
  "py_take i s = (if 0 \<le> i then take_int i s else take_int (int (length s) + i) s)"

definition py_drop :: "int \<Rightarrow> 'a list \<Rightarrow> 'a list" where
  \<comment> \<open>the slice \<open>s[i:]\<close>\<close>
  "py_drop i s = (if 0 \<le> i then drop_int i s else drop_int (int (length s) + i) s)"

definition classify :: "bytes \<Rightarrow> bytes \<times> bytes" where
  \<comment> \<open>the \<open>if ... elif ... else\<close> around the four \<open>yield\<close> statements of \<open>_lineiter\<close>\<close>
  "classify line =
     (if endswith line CRLF then (py_take (- 2) line, CRLF)
      else if endswith line [LF] then (py_take (- 1) line, [LF])
      else if endswith line [CR] then (py_take (- 1) line, [CR])
      else (line, []))"

definition split_first_line :: "int \<Rightarrow> bytes \<Rightarrow> bytes list \<Rightarrow> bytes list" where
  \<comment> \<open>\<open>lines\<close> after the \<open>if len_first_line > self.buffer_size\<close> block, for \<open>lines = l0 # ls\<close>\<close>
  "split_first_line L l0 ls =
     (if int (length l0) > L then
        let splitpos = (if int (length l0) = L + 1 \<and> endswith l0 CRLF then L - 1 else L)
        in py_take splitpos l0 # py_drop splitpos l0 # ls
      else l0 # ls)"

text \<open>
  \<open>_lineiter\<close> is a generator. Its state between two \<open>next\<close> calls: the locals \<open>maxread\<close>
  and \<open>buffer\<close>, the lines of the running \<open>for line in lines\<close> loop that are still to be
  yielded, and whether the last read returned no data (then the \<open>while\<close> loop ends after
  these lines). \<open>lines_next\<close> is one \<open>next\<close> call: an exception, \<open>None\<close> for
  StopIteration, or the pair yielded.
\<close>

record lineiter =
  maxread :: int
  buffer :: bytes
  pending :: "bytes list"
  at_eof :: bool

definition lineiter_start :: "int \<Rightarrow> lineiter" where
  "lineiter_start clen = \<lparr>maxread = clen, buffer = [], pending = [], at_eof = False\<rparr>"

function lines_next ::
  "int \<Rightarrow> lineiter \<Rightarrow> stream \<Rightarrow> (error + (bytes \<times> bytes) option) \<times> lineiter \<times> stream" where
  "lines_next L li st =
     (case pending li of
        line # rest \<Rightarrow> (Inr (Some (classify line)), li\<lparr>pending := rest\<rparr>, st)
      | [] \<Rightarrow>
          if at_eof li then (Inr None, li, st)
          else
            let (chunk, st') = stream_read st (if maxread li < 0 then L else min L (maxread li));
                li' = li\<lparr>maxread := maxread li - int (length chunk)\<rparr>
            in case splitlines (buffer li @ chunk) of
                 [] \<Rightarrow> (Inl IndexError, li'\<lparr>at_eof := True\<rparr>, st')
               | l0 # ls \<Rightarrow>
                   let lines = split_first_line L l0 ls
                   in if chunk \<noteq> []
                      then lines_next L (li'\<lparr>buffer := last lines, pending := butlast lines\<rparr>) st'
                      else lines_next L (li'\<lparr>pending := lines, at_eof := True\<rparr>) st')"
  by pat_completeness auto
termination
proof (relation "measure (\<lambda>(L, li, st). if at_eof li then 0 else Suc (length (data st)))")
  show "wf (measure (\<lambda>(L, li, st). if at_eof li then 0 else Suc (length (data st))))"
    by simp
next
  fix L :: int and li :: lineiter and st st' :: stream and x chunk li' l0 ls lines
  assume a: "\<not> at_eof li"
    "x = stream_read st (if maxread li < 0 then L else min L (maxread li))"
    "(chunk, st') = x" "li' = li\<lparr>maxread := maxread li - int (length chunk)\<rparr>" "chunk \<noteq> []"
  then have "data st = chunk @ data st'"
    using stream_read_data by metis
  with a(5) have "length (data st') < length (data st)" by (cases chunk) auto
  with a show "((L, li'\<lparr>buffer := last lines, pending := butlast lines\<rparr>, st'), L, li, st)
      \<in> measure (\<lambda>(L, li, st). if at_eof li then 0 else Suc (length (data st)))"
    by simp
next
  fix L :: int and li :: lineiter and st st' :: stream and x chunk li' l0 ls lines
  assume "\<not> at_eof li"
  then show "((L, li'\<lparr>pending := lines, at_eof := True\<rparr>, st'), L, li, st)
      \<in> measure (\<lambda>(L, li, st). if at_eof li then 0 else Suc (length (data st)))"
    by simp
qed




section \<open>\<open>MultipartParser\<close>\<close>

definition lkey :: "lineiter \<Rightarrow> stream \<Rightarrow> nat \<times> nat" where
  \<comment> \<open>what is left for the line reader to do: the unread input, then the lines in hand\<close>
  "lkey li st = (if at_eof li then 0 else Suc (length (data st)), length (pending li))"

lemma lex_nat_trans:
  "(a, b) \<in> less_than <*lex*> less_than \<Longrightarrow> (b, c) \<in> less_than <*lex*> less_than
     \<Longrightarrow> (a, c) \<in> less_than <*lex*> (less_than :: (nat \<times> nat) set)"
  by (cases a; cases b; cases c) auto

lemma lines_next_progress:
  "lines_next L li st = (r, li', st') \<Longrightarrow>
     (r = Inr None \<and> li' = li \<and> st' = st) \<or> (lkey li' st', lkey li st) \<in> less_than <*lex*> less_than"
proof (induction L li st arbitrary: r li' st' rule: lines_next.induct)
  case (1 L li st)
  show ?case
  proof (cases "pending li")
    case (Cons line rest)
    with "1.prems" show ?thesis by (subst (asm) lines_next.simps) (auto simp: lkey_def)
  next
    case Nil
    show ?thesis
    proof (cases "at_eof li")
      case True
      with Nil "1.prems" show ?thesis by (subst (asm) lines_next.simps) auto
    next
      case False
      obtain chunk st1 where
        rd: "stream_read st (if maxread li < 0 then L else min L (maxread li)) = (chunk, st1)"
        by (cases "stream_read st (if maxread li < 0 then L else min L (maxread li))")
      have dd: "data st = chunk @ data st1" using rd by (rule stream_read_data)
      let ?li1 = "li\<lparr>maxread := maxread li - int (length chunk)\<rparr>"
      show ?thesis
      proof (cases "splitlines (buffer li @ chunk)")
        case n: Nil
        with Nil False rd "1.prems" dd show ?thesis
          by (subst (asm) lines_next.simps) (auto simp: Let_def lkey_def)
      next
        case (Cons l0 ls)
        let ?lines = "split_first_line L l0 ls"
        show ?thesis
        proof (cases "chunk = []")
          case True
          let ?li2 = "?li1\<lparr>pending := ?lines, at_eof := True\<rparr>"
          have e: "lines_next L ?li2 st1 = (r, li', st')"
            using "1.prems" Nil False rd Cons True
            by (subst (asm) lines_next.simps) (simp add: Let_def)
          have step: "(lkey ?li2 st1, lkey li st) \<in> less_than <*lex*> less_than"
            using False by (simp add: lkey_def)
          from "1.IH"(2) [OF Nil False refl rd [symmetric] refl Cons refl _ e] True
          have "(r = Inr None \<and> li' = ?li2 \<and> st' = st1)
                \<or> (lkey li' st', lkey ?li2 st1) \<in> less_than <*lex*> less_than" by blast
          then show ?thesis using step lex_nat_trans by blast
        next
          case ne: False
          let ?li2 = "?li1\<lparr>buffer := last ?lines, pending := butlast ?lines\<rparr>"
          have e: "lines_next L ?li2 st1 = (r, li', st')"
            using "1.prems" Nil False rd Cons ne
            by (subst (asm) lines_next.simps) (simp add: Let_def)
          have "length (data st1) < length (data st)" using dd ne by (cases chunk) auto
          then have step: "(lkey ?li2 st1, lkey li st) \<in> less_than <*lex*> less_than"
            using False by (simp add: lkey_def)
          from "1.IH"(1) [OF Nil False refl rd [symmetric] refl Cons refl ne e]
          have "(r = Inr None \<and> li' = ?li2 \<and> st' = st1)
                \<or> (lkey li' st', lkey ?li2 st1) \<in> less_than <*lex*> less_than" by blast
          then show ?thesis using step lex_nat_trans by blast
        qed
      qed
    qed
  qed
qed

lemma lines_next_lkey:
  assumes "lines_next L li st = (Inr (Some x), li', st')"
  shows "(lkey li' st', lkey li st) \<in> less_than <*lex*> less_than"
  using lines_next_progress [OF assms] by simp

text \<open>
  The parser object. Its stream is shared with the generators it creates, so the
  generators below take the stream as an argument and hand it back. \<open>_iterparse\<close> is a
  generator: it is either not started, suspended at one of its two \<open>yield part\<close>
  statements (with the locals \<open>lines\<close>, \<open>mem_used\<close>, \<open>disk_used\<close>, \<open>is_tail\<close> and \<open>line\<close>
  that it needs when it goes on), or finished.
\<close>

datatype iterparse =
    NotStarted
  | AfterSeparator lineiter int int bool bytes
  | AfterTerminator
  | Finished

record parser =
  stream :: stream
  boundary :: bytes
  content_length :: int
  disk_limit :: int
  memfile_limit :: int
  mem_limit :: int
  buffer_size :: int
  charset :: string
  done_parts :: "part list"               \<comment> \<open>\<open>self._done\<close>\<close>
  part_iter :: "iterparse option"         \<comment> \<open>\<open>self._part_iter\<close>\<close>

definition MultipartParser ::
  "stream \<Rightarrow> bytes \<Rightarrow> int \<Rightarrow> int \<Rightarrow> int \<Rightarrow> int \<Rightarrow> int \<Rightarrow> string \<Rightarrow> error + parser" where
  \<comment> \<open>\<open>__init__(stream, boundary, content_length, disk_limit, mem_limit, memfile_limit,
      buffer_size, charset)\<close>\<close>
  "MultipartParser st b clen dlimit mlimit mflimit bsize cs =
     (let mem = min mlimit dlimit;
          bs = min bsize mem
      in if bs - 6 < int (length b) then Inl (MultipartError BoundaryTooLong)
         else Inr \<lparr>stream = st, boundary = b, content_length = clen, disk_limit = dlimit,
                   memfile_limit = mflimit, mem_limit = mem, buffer_size = bs, charset = cs,
                   done_parts = [], part_iter = None\<rparr>)"

definition default_parser :: "stream \<Rightarrow> bytes \<Rightarrow> error + parser" where
  \<comment> \<open>the constructor with its default arguments\<close>
  "default_parser st b = MultipartParser st b (- 1) (2 ^ 30) (2 ^ 20) (2 ^ 18) (2 ^ 16) ''latin1''"

definition separator :: "parser \<Rightarrow> bytes" where
  "separator P = ''--'' @ boundary P"

definition terminator :: "parser \<Rightarrow> bytes" where
  "terminator P = ''--'' @ boundary P @ ''--''"

definition new_part :: "parser \<Rightarrow> part" where
  \<comment> \<open>\<open>MultipartPart(**opts)\<close>\<close>
  "new_part P = MultipartPart (buffer_size P) (memfile_limit P) (charset P)"

text \<open>What a \<open>next\<close> call on a generator of parts comes back with.\<close>

datatype outcome = Yield part | Stop | Raise error

text \<open>One turn of the second \<open>for line, nl in lines\<close> loop of \<open>_iterparse\<close>, for the pair
  the line reader has just produced.\<close>

datatype step =
    Raised error
  | YieldLast part                  \<comment> \<open>the terminator branch: \<open>yield part; break\<close>\<close>
  | YieldNext part int int          \<comment> \<open>the separator branch, with the new counters\<close>
  | Continue bool part              \<comment> \<open>the line was fed: the new \<open>is_tail\<close> and part\<close>

definition loop_body :: "parser \<Rightarrow> int \<Rightarrow> int \<Rightarrow> bool \<Rightarrow> part \<Rightarrow> bytes \<Rightarrow> bytes \<Rightarrow> step" where
  "loop_body P mem_used disk_used is_tail cur ln nl =
     (if ln = terminator P \<and> \<not> is_tail then
        (case part_file cur of
           None \<Rightarrow> Raised AttributeError
         | Some f \<Rightarrow> YieldLast (cur\<lparr>part_file := Some (sink_seek f 0)\<rparr>))
      else if ln = separator P \<and> \<not> is_tail then
        (let mem_used' = (if is_buffered cur then mem_used + part_size cur else mem_used);
             disk_used' = (if is_buffered cur then disk_used else disk_used + part_size cur)
         in case part_file cur of
              None \<Rightarrow> Raised AttributeError
            | Some f \<Rightarrow> YieldNext (cur\<lparr>part_file := Some (sink_seek f 0)\<rparr>) mem_used' disk_used')
      else
        (case feed cur ln nl of
           Inl e \<Rightarrow> Raised e
         | Inr cur' \<Rightarrow>
             if is_buffered cur' then
               (if part_size cur' + mem_used > mem_limit P
                then Raised (MultipartError MemoryLimit) else Continue (nl = []) cur')
             else if part_size cur' + disk_used > disk_limit P
                then Raised (MultipartError DiskLimit) else Continue (nl = []) cur'))"

function parse_loop ::
  "parser \<Rightarrow> lineiter \<Rightarrow> stream \<Rightarrow> int \<Rightarrow> int \<Rightarrow> bool \<Rightarrow> part \<Rightarrow> bytes
     \<Rightarrow> outcome \<times> iterparse \<times> stream" where
  \<comment> \<open>the second loop of \<open>_iterparse\<close> and the check after it, up to the next \<open>yield\<close>, the
      end of the generator or an exception; the last argument is the local \<open>line\<close>\<close>
  "parse_loop P li st mem_used disk_used is_tail cur ln0 =
     (case lines_next (buffer_size P) li st of
        (Inl e, li', st') \<Rightarrow> (Raise e, Finished, st')
      | (Inr None, li', st') \<Rightarrow>
          (if ln0 \<noteq> terminator P then Raise (MultipartError UnexpectedEnd) else Stop,
           Finished, st')
      | (Inr (Some (ln, nl)), li', st') \<Rightarrow>
          (case loop_body P mem_used disk_used is_tail cur ln nl of
             Raised e \<Rightarrow> (Raise e, Finished, st')
           | YieldLast p \<Rightarrow> (Yield p, AfterTerminator, st')
           | YieldNext p mem_used' disk_used' \<Rightarrow>
               (Yield p, AfterSeparator li' mem_used' disk_used' is_tail ln, st')
           | Continue is_tail' cur' \<Rightarrow>
               parse_loop P li' st' mem_used disk_used is_tail' cur' ln))"
  by pat_completeness auto
termination
  apply (relation "inv_image (less_than <*lex*> less_than)
                   (\<lambda>(P, li, st, mem_used, disk_used, is_tail, cur, ln0). lkey li st)")
   apply (intro wf_inv_image wf_lex_prod wf_less_than)
  apply (metis (no_types, lifting) in_inv_image lines_next_lkey old.prod.case)
  done

function skip_blank :: "int \<Rightarrow> lineiter \<Rightarrow> stream \<Rightarrow> (error + bytes) \<times> lineiter \<times> stream" where
  \<comment> \<open>the first loop of \<open>_iterparse\<close>: the value of \<open>line\<close> after it, or the exception\<close>
  "skip_blank L li st =
     (case lines_next L li st of
        (Inl e, li', st') \<Rightarrow> (Inl e, li', st')
      | (Inr None, li', st') \<Rightarrow> (Inr [], li', st')
      | (Inr (Some (ln, nl)), li', st') \<Rightarrow>
          if ln \<noteq> [] then (Inr ln, li', st') else skip_blank L li' st')"
  by pat_completeness auto
termination
  apply (relation "inv_image (less_than <*lex*> less_than) (\<lambda>(L, li, st). lkey li st)")
   apply (intro wf_inv_image wf_lex_prod wf_less_than)
  apply (metis (no_types, lifting) in_inv_image lines_next_lkey old.prod.case)
  done

definition iterparse_next :: "parser \<Rightarrow> iterparse \<Rightarrow> stream \<Rightarrow> outcome \<times> iterparse \<times> stream" where
  \<comment> \<open>one \<open>next\<close> call on the generator \<open>_iterparse()\<close>\<close>
  "iterparse_next P g st =
     (case g of
        Finished \<Rightarrow> (Stop, Finished, st)
      | AfterTerminator \<Rightarrow> (Stop, Finished, st)
      | AfterSeparator li mem_used disk_used is_tail ln \<Rightarrow>
          parse_loop P li st mem_used disk_used is_tail (new_part P) ln
      | NotStarted \<Rightarrow>
          (case skip_blank (buffer_size P) (lineiter_start (content_length P)) st of
             (Inl e, li, st') \<Rightarrow> (Raise e, Finished, st')
           | (Inr ln, li, st') \<Rightarrow>
               if ln \<noteq> separator P then (Raise (MultipartError NoStartBoundary), Finished, st')
               else parse_loop P li st' 0 0 False (new_part P) ln))"


declare lines_next.simps [simp del] parse_loop.simps [simp del] skip_blank.simps [simp del]

lemma parse_loop_yield_key:
  "parse_loop P li st m d t cur ln0 = (Yield p, g', st') \<Longrightarrow>
     (case g' of AfterSeparator li' _ _ _ _ \<Rightarrow> (lkey li' st', lkey li st) \<in> less_than <*lex*> less_than
               | AfterTerminator \<Rightarrow> lkey li st \<noteq> (0, 0)
               | _ \<Rightarrow> False)"
proof (induction P li st m d t cur ln0 rule: parse_loop.induct)
  case (1 P li st m d t cur ln0)
  obtain r li1 st1 where ln: "lines_next (buffer_size P) li st = (r, li1, st1)"
    by (cases "lines_next (buffer_size P) li st") auto
  show ?case
  proof (cases r)
    case (Inl e)
    with ln "1.prems" show ?thesis by (subst (asm) parse_loop.simps) simp
  next
    case (Inr o1)
    show ?thesis
    proof (cases o1)
      case None
      with Inr ln "1.prems" show ?thesis by (subst (asm) parse_loop.simps) (simp split: if_splits)
    next
      case (Some xa)
      obtain ln1 nl where xa: "xa = (ln1, nl)" by (cases xa)
      have e: "lines_next (buffer_size P) li st = (Inr (Some (ln1, nl)), li1, st1)"
        using ln Inr Some xa by simp
      have dec: "(lkey li1 st1, lkey li st) \<in> less_than <*lex*> less_than"
        using e by (rule lines_next_lkey)
      have nz: "lkey li st \<noteq> (0, 0)"
        using dec by (cases "lkey li1 st1") auto
      show ?thesis
      proof (cases "loop_body P m d t cur ln1 nl")
        case (Raised e')
        with e "1.prems" show ?thesis by (subst (asm) parse_loop.simps) simp
      next
        case (YieldLast q)
        with e "1.prems" nz show ?thesis by (subst (asm) parse_loop.simps) auto
      next
        case (YieldNext q m' d')
        with e "1.prems" dec show ?thesis by (subst (asm) parse_loop.simps) auto
      next
        case (Continue t' cur')
        have r: "parse_loop P li1 st1 m d t' cur' ln1 = (Yield p, g', st')"
          using e Continue "1.prems" by (subst (asm) parse_loop.simps) simp
        note ih = "1.IH" [OF e [symmetric] refl refl refl refl Continue r]
        show ?thesis
        proof (cases g')
          case (AfterSeparator li2 a b c d)
          with ih have "(lkey li2 st', lkey li1 st1) \<in> less_than <*lex*> less_than" by simp
          then have "(lkey li2 st', lkey li st) \<in> less_than <*lex*> less_than"
            using dec by (rule lex_nat_trans)
          with AfterSeparator show ?thesis by simp
        next
          case AfterTerminator
          with nz show ?thesis by simp
        next
          case NotStarted
          with ih show ?thesis by simp
        next
          case Finished
          with ih show ?thesis by simp
        qed
      qed
    qed
  qed
qed


lemma skip_blank_key:
  "skip_blank L li st = (r, li', st') \<Longrightarrow>
     lkey li' st' = lkey li st \<or> (lkey li' st', lkey li st) \<in> less_than <*lex*> less_than"
proof (induction L li st rule: skip_blank.induct)
  case (1 L li st)
  obtain r1 li1 st1 where ln: "lines_next L li st = (r1, li1, st1)"
    by (cases "lines_next L li st") auto
  note pr = lines_next_progress [OF ln]
  show ?case
  proof (cases r1)
    case (Inl e)
    with ln "1.prems" pr show ?thesis by (subst (asm) skip_blank.simps) auto
  next
    case (Inr o1)
    show ?thesis
    proof (cases o1)
      case None
      with Inr ln "1.prems" pr show ?thesis by (subst (asm) skip_blank.simps) auto
    next
      case (Some xa)
      obtain ln1 nl where xa: "xa = (ln1, nl)" by (cases xa)
      have e: "lines_next L li st = (Inr (Some (ln1, nl)), li1, st1)"
        using ln Inr Some xa by simp
      have dec: "(lkey li1 st1, lkey li st) \<in> less_than <*lex*> less_than"
        using e by (rule lines_next_lkey)
      show ?thesis
      proof (cases "ln1 = []")
        case False
        with e "1.prems" dec show ?thesis by (subst (asm) skip_blank.simps) auto
      next
        case True
        have r: "skip_blank L li1 st1 = (r, li', st')"
          using e True "1.prems" by (subst (asm) skip_blank.simps) simp
        from "1.IH" [OF e [symmetric] refl refl refl refl _ r] True
        have "lkey li' st' = lkey li1 st1 \<or> (lkey li' st', lkey li1 st1) \<in> less_than <*lex*> less_than"
          by simp
        then show ?thesis using dec lex_nat_trans by metis
      qed
    qed
  qed
qed

definition gkey :: "iterparse \<Rightarrow> stream \<Rightarrow> nat \<times> nat" where
  \<comment> \<open>what is left for \<open>_iterparse\<close> to do, as \<open>lkey\<close> of its line reader\<close>
  "gkey g st = (case g of
      NotStarted \<Rightarrow> (Suc (length (data st)), 0)
    | AfterSeparator li _ _ _ _ \<Rightarrow> lkey li st
    | _ \<Rightarrow> (0, 0))"

lemma iterparse_next_yield_key:
  assumes "iterparse_next P g st = (Yield p, g', st')"
  shows "(gkey g' st', gkey g st) \<in> less_than <*lex*> less_than"
proof -
  have loop: "(gkey g' st', lkey li0 st0) \<in> less_than <*lex*> less_than"
    if "parse_loop P li0 st0 m d t cur ln0 = (Yield p, g', st')" for li0 st0 m d t cur ln0
  proof -
    note k = parse_loop_yield_key [OF that]
    show ?thesis
    proof (cases g')
      case (AfterSeparator li2 a b c e)
      with k show ?thesis by (simp add: gkey_def)
    next
      case AfterTerminator
      with k show ?thesis by (cases "lkey li0 st0") (auto simp: gkey_def)
    next
      case NotStarted
      with k show ?thesis by simp
    next
      case Finished
      with k show ?thesis by simp
    qed
  qed
  show ?thesis
  proof (cases g)
    case NotStarted
    obtain r li1 st1 where sb:
      "skip_blank (buffer_size P) (lineiter_start (content_length P)) st = (r, li1, st1)"
      by (cases "skip_blank (buffer_size P) (lineiter_start (content_length P)) st") auto
    have k0: "lkey (lineiter_start (content_length P)) st = gkey g st"
      using NotStarted by (simp add: lkey_def gkey_def lineiter_start_def)
    from skip_blank_key [OF sb] k0
    have le: "lkey li1 st1 = gkey g st \<or> (lkey li1 st1, gkey g st) \<in> less_than <*lex*> less_than"
      by simp
    from assms NotStarted sb obtain ln where
      "parse_loop P li1 st1 0 0 False (new_part P) ln = (Yield p, g', st')"
      by (auto simp: iterparse_next_def split: sum.splits if_splits)
    then have "(gkey g' st', lkey li1 st1) \<in> less_than <*lex*> less_than" by (rule loop)
    with le show ?thesis using lex_nat_trans by metis
  next
    case (AfterSeparator li m d t ln)
    with assms have "parse_loop P li st m d t (new_part P) ln = (Yield p, g', st')"
      by (simp add: iterparse_next_def)
    then have "(gkey g' st', lkey li st) \<in> less_than <*lex*> less_than" by (rule loop)
    with AfterSeparator show ?thesis by (simp add: gkey_def)
  next
    case AfterTerminator
    with assms show ?thesis by (simp add: iterparse_next_def)
  next
    case Finished
    with assms show ?thesis by (simp add: iterparse_next_def)
  qed
qed

function drain ::
  "parser \<Rightarrow> iterparse \<Rightarrow> stream \<Rightarrow> part list
     \<Rightarrow> part list \<times> error option \<times> iterparse \<times> stream" where
  \<comment> \<open>\<open>for part in self._part_iter: self._done.append(part); yield part\<close>, run until the
      generator ends or raises; the last argument is \<open>self._done\<close>\<close>
  "drain P g st acc =
     (case iterparse_next P g st of
        (Yield p, g', st') \<Rightarrow> drain P g' st' (acc @ [p])
      | (Stop, g', st') \<Rightarrow> (acc, None, g', st')
      | (Raise e, g', st') \<Rightarrow> (acc, Some e, g', st'))"
  by pat_completeness auto
termination
  apply (relation "inv_image (less_than <*lex*> less_than) (\<lambda>(P, g, st, acc). gkey g st)")
   apply (intro wf_inv_image wf_lex_prod wf_less_than)
  apply (metis (no_types, lifting) in_inv_image iterparse_next_yield_key old.prod.case)
  done

declare drain.simps [simp del]

definition parts :: "parser \<Rightarrow> (part list \<times> error option) \<times> parser" where
  \<comment> \<open>\<open>list(iter(self))\<close>: one full iteration of \<open>__iter__\<close>. The parts it yields, in order
      (first those of \<open>self._done\<close>), the exception that ended it if one did, and the
      parser afterwards\<close>
  "parts P =
     (let g = (case part_iter P of None \<Rightarrow> NotStarted | Some g \<Rightarrow> g);
          (ys, e, g', st') = drain P g (stream P) (done_parts P)
      in ((ys, e), P\<lparr>stream := st', done_parts := ys, part_iter := Some g'\<rparr>))"


section \<open>Two concrete streams\<close>

definition scenario_stream :: bytes where
  \<comment> \<open>one part named \<open>a\<close> with the body \<open>hello\<close>, boundary \<open>B\<close>\<close>
  "scenario_stream =
     ''--B'' @ CRLF @
     ''Content-Disposition: form-data; name='' @ [DQ] @ ''a'' @ [DQ] @ CRLF @
     CRLF @
     ''hello'' @ CRLF @
     ''--B--'' @ CRLF"

definition tail_stream :: bytes where
  \<comment> \<open>a body line of 64 bytes followed, on the same line, by \<open>--B--\<close>\<close>
  "tail_stream =
     ''--B'' @ CRLF @
     ''Content-Disposition: form-data; name='' @ [DQ] @ ''a'' @ [DQ] @ CRLF @
     CRLF @
     replicate 64 (CHR ''x'') @ ''--B--'' @ CRLF"

section \<open>A sealed part\<close>

definition sealed_example :: part where
  \<comment> \<open>a part whose body \<open>hello\<close> is on disk, left at position 3 by an earlier read\<close>
  "sealed_example =
     (MultipartPart 65536 262144 ''latin1'')
       \<lparr>part_file := Some \<lparr>kind = TemporaryFile, content = ''hello'', pos = 3, failing = False\<rparr>\<rparr>"

section \<open>Invariant of the body sink, and two parts in their body state\<close>

definition body_wf :: "part \<Rightarrow> bool" where
  \<comment> \<open>\<open>size\<close> counts the bytes in the sink, and the sink is positioned at its end\<close>
  "body_wf p = (case part_file p of
       None \<Rightarrow> part_size p = 0
     | Some f \<Rightarrow> pos f = length (content f) \<and> part_size p = int (length (content f)))"


definition declared_five :: part where
  \<comment> \<open>a part after its headers, among them \<open>Content-Length: 5\<close>\<close>
  "declared_five =
     projr (feed (projr (feed (projr (feed (MultipartPart 65536 262144 ''latin1'')
        (''Content-Disposition: form-data; name='' @ [DQ] @ ''a'' @ [DQ]) CRLF))
        ''Content-Length: 5'' CRLF)) [] CRLF)"

definition small_limit :: part where
  \<comment> \<open>a part after its headers, with \<open>memfile_limit = 4\<close>\<close>
  "small_limit =
     projr (feed (projr (feed (MultipartPart 65536 4 ''latin1'')
        (''Content-Disposition: form-data; name='' @ [DQ] @ ''a'' @ [DQ]) CRLF)) [] CRLF)"

section \<open>What the parts handed out so far hold\<close>

text \<open>
  The two counters of \<open>_iterparse\<close> are meant to hold what the parts yielded so far take up
  in memory and on disk. The totals below are computed from the yielded parts themselves;
  \<open>gen_counts\<close> says that a suspended generator carries exactly these totals and that they
  are within the limits of the parser.
\<close>

definition mem_total :: "part list \<Rightarrow> int" where
  "mem_total ps = sum_list (map part_size (filter is_buffered ps))"

definition disk_total :: "part list \<Rightarrow> int" where
  "disk_total ps = sum_list (map part_size (filter (\<lambda>p. \<not> is_buffered p) ps))"

definition gen_counts :: "parser \<Rightarrow> iterparse \<Rightarrow> part list \<Rightarrow> bool" where
  "gen_counts P g acc =
     (mem_total acc \<le> mem_limit P \<and> disk_total acc \<le> disk_limit P
      \<and> (case g of
            AfterSeparator li m d t ln \<Rightarrow> m = mem_total acc \<and> d = disk_total acc
          | NotStarted \<Rightarrow> acc = []
          | _ \<Rightarrow> True))"

section \<open>A stream of two parts that together exceed a memory limit\<close>

text \<open>
  Two parts \<open>a\<close> and \<open>b\<close> with bodies of 30 and 21 bytes, followed by three further body
  lines of 40 bytes, read by a parser with \<open>mem_limit = 50\<close>. \<open>second_part\<close> is the part
  \<open>b\<close> once its header block has been fed.
\<close>

definition budget_stream :: bytes where
  "budget_stream =
     ''--B'' @ CRLF @
     ''Content-Disposition: form-data; name='' @ [DQ] @ ''a'' @ [DQ] @ CRLF @
     CRLF @
     replicate 30 (CHR ''y'') @ CRLF @
     ''--B'' @ CRLF @
     ''Content-Disposition: form-data; name='' @ [DQ] @ ''b'' @ [DQ] @ CRLF @
     CRLF @
     replicate 21 (CHR ''z'') @ CRLF @
     replicate 40 (CHR ''w'') @ CRLF @
     replicate 40 (CHR ''w'') @ CRLF @
     replicate 40 (CHR ''w'') @ CRLF @
     ''--B--'' @ CRLF"

definition budget_parser :: parser where
  "budget_parser =
     projr (MultipartParser \<lparr>data = budget_stream, reads = 0\<rparr> ''B''
              (- 1) (2 ^ 30) 50 (2 ^ 18) (2 ^ 16) ''latin1'')"

definition second_part :: part where
  "second_part =
     projr (feed (projr (feed (new_part budget_parser)
        (''Content-Disposition: form-data; name='' @ [DQ] @ ''b'' @ [DQ]) CRLF)) [] CRLF)"


section \<open>Header values for \<open>parse_options_header\<close>\<close>

text \<open>
  The specification describes the split of a header value as a split "on the first unquoted
  \<open>;\<close>". \<open>spec_split_unquoted\<close> follows these words, not the code: it scans the value,
  keeps track of being inside double quotes, and splits at the first \<open>;\<close> met outside of
  them. It is there to be compared with what \<open>parse_options_header\<close> does.
\<close>

fun spec_split_unquoted :: "bool \<Rightarrow> string \<Rightarrow> string \<Rightarrow> (string \<times> string) option" where
  \<comment> \<open>the flag: inside double quotes; the second argument: what has been passed over\<close>
  "spec_split_unquoted inq acc [] = None"
| "spec_split_unquoted inq acc (c # cs) =
     (if c = CHR '';'' \<and> \<not> inq then Some (acc, cs)
      else spec_split_unquoted (if c = DQ then \<not> inq else inq) (acc @ [c]) cs)"

text \<open>
  A \<open>Content-Disposition\<close> value with a mixed-case key, a quoted Windows path and a
  fragment that is no \<open>key=value\<close> pair; and a value whose first \<open>;\<close> is inside double
  quotes.
\<close>

definition disposition_example :: string where
  "disposition_example =
     ''form-data; Name='' @ [DQ] @ ''a'' @ [DQ] @ ''; filename='' @ [DQ] @ ''C:'' @ [BSL] @ ''x''
       @ [BSL] @ ''f.txt'' @ [DQ] @ ''; junk''"

definition quoted_example :: string where
  "quoted_example = [DQ] @ ''a;b'' @ [DQ] @ '';c=d''"


(*MODEL-END*)

section \<open>Properties of the header parser\<close>

lemma replace2_absent: "a \<notin> set s \<Longrightarrow> replace2 a b new s = s"
  by (induction a b new s rule: replace2.induct) auto

lemma split_last_no_sep: "c \<notin> set (split_last c s)"
  unfolding split_last_def using set_takeWhileD by fastforce

lemma split_last_decomp: "c \<in> set s \<Longrightarrow> \<exists>pre. s = pre @ c # split_last c s"
proof -
  assume "c \<in> set s"
  then have "c \<in> set (rev s)" by simp
  then obtain ys zs where "rev s = ys @ c # zs" "c \<notin> set ys"
    by (meson split_list_first)
  note d = this
  have "takeWhile (\<lambda>x. x \<noteq> c) (ys @ c # zs) = ys"
    using d(2) by (induction ys) auto
  moreover have "rev (rev s) = rev (ys @ c # zs)" using d(1) by simp
  then have "s = rev zs @ c # rev ys" by simp
  ultimately show ?thesis using d(1) by (auto simp: split_last_def)
qed

lemma win_path_has_bsl:
  "take 2 (drop 1 v) = [CHR '':'', BSL] \<or> take 2 v = [BSL, BSL] \<Longrightarrow> BSL \<in> set v"
proof (erule disjE)
  assume "take 2 (drop 1 v) = [CHR '':'', BSL]"
  then have "BSL \<in> set (take 2 (drop 1 v))" by simp
  then show ?thesis by (meson in_set_dropD in_set_takeD)
next
  assume "take 2 v = [BSL, BSL]"
  then have "BSL \<in> set (take 2 v)" by simp
  then show ?thesis by (meson in_set_takeD)
qed


section \<open>Properties of the generators\<close>


lemma parse_loop_ends_finished:
  "parse_loop P li st m d t cur ln0 = (r, g', st') \<Longrightarrow> (\<forall>p. r \<noteq> Yield p) \<Longrightarrow> g' = Finished"
proof (induction P li st m d t cur ln0 rule: parse_loop.induct)
  case (1 P li st m d t cur ln0)
  obtain r1 li1 st1 where ln: "lines_next (buffer_size P) li st = (r1, li1, st1)"
    by (cases "lines_next (buffer_size P) li st") auto
  show ?case
  proof (cases r1)
    case (Inl e)
    with ln "1.prems" show ?thesis by (subst (asm) parse_loop.simps) auto
  next
    case (Inr o1)
    show ?thesis
    proof (cases o1)
      case None
      with Inr ln "1.prems" show ?thesis by (subst (asm) parse_loop.simps) (auto split: if_splits)
    next
      case (Some xa)
      obtain ln1 nl where xa: "xa = (ln1, nl)" by (cases xa)
      have e: "lines_next (buffer_size P) li st = (Inr (Some (ln1, nl)), li1, st1)"
        using ln Inr Some xa by simp
      show ?thesis
      proof (cases "loop_body P m d t cur ln1 nl")
        case (Raised e')
        with e "1.prems" show ?thesis by (subst (asm) parse_loop.simps) auto
      next
        case (YieldLast q)
        with e "1.prems" show ?thesis by (subst (asm) parse_loop.simps) auto
      next
        case (YieldNext q m' d')
        with e "1.prems" show ?thesis by (subst (asm) parse_loop.simps) auto
      next
        case (Continue t' cur')
        have r: "parse_loop P li1 st1 m d t' cur' ln1 = (r, g', st')"
          using e Continue "1.prems" by (subst (asm) parse_loop.simps) simp
        from "1.IH" [OF e [symmetric] refl refl refl refl Continue r] "1.prems"(2)
        show ?thesis by simp
      qed
    qed
  qed
qed

lemma iterparse_next_ends_finished:
  assumes "iterparse_next P g st = (r, g', st')" and "\<forall>p. r \<noteq> Yield p"
  shows "g' = Finished"
proof (cases g)
  case NotStarted
  obtain r1 li1 st1 where sb:
    "skip_blank (buffer_size P) (lineiter_start (content_length P)) st = (r1, li1, st1)"
    by (cases "skip_blank (buffer_size P) (lineiter_start (content_length P)) st") auto
  show ?thesis
  proof (cases r1)
    case (Inl e)
    with assms NotStarted sb show ?thesis by (simp add: iterparse_next_def)
  next
    case (Inr ln)
    show ?thesis
    proof (cases "ln = separator P")
      case False
      with assms NotStarted sb Inr show ?thesis by (simp add: iterparse_next_def)
    next
      case True
      with assms NotStarted sb Inr
      have "parse_loop P li1 st1 0 0 False (new_part P) ln = (r, g', st')"
        by (simp add: iterparse_next_def)
      then show ?thesis using assms(2) by (rule parse_loop_ends_finished)
    qed
  qed
next
  case (AfterSeparator li m d t ln)
  with assms have "parse_loop P li st m d t (new_part P) ln = (r, g', st')"
    by (simp add: iterparse_next_def)
  then show ?thesis using assms(2) by (rule parse_loop_ends_finished)
next
  case AfterTerminator
  with assms show ?thesis by (simp add: iterparse_next_def)
next
  case Finished
  with assms show ?thesis by (simp add: iterparse_next_def)
qed

lemma drain_ends_finished:
  "drain P g st acc = (ys, e, g', st') \<Longrightarrow> g' = Finished"
proof (induction P g st acc rule: drain.induct)
  case (1 P g st acc)
  obtain r g1 st1 where n: "iterparse_next P g st = (r, g1, st1)"
    by (cases "iterparse_next P g st") auto
  show ?case
  proof (cases r)
    case (Yield p)
    with n "1.prems" have "drain P g1 st1 (acc @ [p]) = (ys, e, g', st')"
      by (subst (asm) drain.simps) simp
    with "1.IH" [OF n [symmetric] Yield refl] show ?thesis by simp
  next
    case Stop
    with n "1.prems" have "g' = g1" by (subst (asm) drain.simps) simp
    with n Stop show ?thesis using iterparse_next_ends_finished by blast
  next
    case (Raise x)
    with n "1.prems" have "g' = g1" by (subst (asm) drain.simps) simp
    with n Raise show ?thesis using iterparse_next_ends_finished by blast
  qed
qed

lemma drain_finished: "drain P Finished st acc = (acc, None, Finished, st)"
  by (subst drain.simps) (simp add: iterparse_next_def)


section \<open>Properties of the body sink\<close>


declare copy_loop.simps [simp del]

lemma sink_read_ok:
  "\<not> (kind s = TemporaryFile \<and> failing s) \<Longrightarrow>
     sink_read s n = (Inr (if n < 0 then drop (pos s) (content s) else take (nat n) (drop (pos s) (content s))),
                      s\<lparr>pos := pos s + length (if n < 0 then drop (pos s) (content s) else take (nat n) (drop (pos s) (content s)))\<rparr>)"
  by (auto simp: sink_read_def Let_def)

lemma sink_write_append:
  "pos t = length (content t) \<Longrightarrow>
     sink_write t b = t\<lparr>content := content t @ b, pos := length (content t) + length b\<rparr>"
  by (simp add: sink_write_def Let_def)

lemma take_drop_rejoin: "take k xs @ drop (length (take k xs)) xs = xs"
proof (cases "k \<le> length xs")
  case True
  then show ?thesis by (simp add: min_def)
next
  case False
  then show ?thesis by simp
qed

lemma copy_loop_complete:
  assumes "\<not> (kind s = TemporaryFile \<and> failing s)" and "b \<noteq> 0"
    and "pos s \<le> length (content s)" and "m - sz = int (length (content s) - pos s)"
    and "pos t = length (content t)"
  shows "\<exists>n s'. copy_loop s t m b sz =
           Inr (n, s', t\<lparr>content := content t @ drop (pos s) (content s),
                          pos := length (content t) + (length (content s) - pos s)\<rparr>)"
  using assms
proof (induction s t m b sz rule: copy_loop.induct)
  case (1 s t m b sz)
  let ?n = "if m < 0 then b else min b (m - sz)"
  let ?avail = "drop (pos s) (content s)"
  let ?got = "if ?n < 0 then ?avail else take (nat ?n) ?avail"
  let ?s' = "s\<lparr>pos := pos s + length ?got\<rparr>"
  have rd: "sink_read s ?n = (Inr ?got, ?s')" using sink_read_ok [OF "1.prems"(1)] by simp
  have m0: "0 \<le> m - sz" using "1.prems"(4) by simp
  show ?case
  proof (cases "?got = []")
    case True
    have "?avail = []"
    proof (rule ccontr)
      assume ne: "?avail \<noteq> []"
      then have "0 < m - sz" using "1.prems"(3,4) by simp
      with ne True "1.prems"(2) show False by (auto simp: min_def split: if_splits)
    qed
    then have e: "length (content s) - pos s = 0" "drop (pos s) (content s) = []" by simp_all
    have "copy_loop s t m b sz = Inr (sz, ?s', t)"
      using rd True by (subst copy_loop.simps) (simp add: Let_def)
    moreover have "t\<lparr>content := content t @ drop (pos s) (content s),
                      pos := length (content t) + (length (content s) - pos s)\<rparr> = t"
      using e "1.prems"(5) by simp
    ultimately show ?thesis by simp
  next
    case False
    have step: "copy_loop s t m b sz = copy_loop ?s' (sink_write t ?got) m b (sz + int (length ?got))"
      using rd False by (subst copy_loop.simps) (simp add: Let_def)
    have gl: "length ?got \<le> length (content s) - pos s" by simp
    have a1: "\<not> (kind ?s' = TemporaryFile \<and> failing ?s')" using "1.prems"(1) by simp
    have a3: "pos ?s' \<le> length (content ?s')" using gl "1.prems"(3) by simp
    have a4: "m - (sz + int (length ?got)) = int (length (content ?s') - pos ?s')"
      using gl "1.prems"(3,4) by simp
    have w: "sink_write t ?got = t\<lparr>content := content t @ ?got, pos := length (content t) + length ?got\<rparr>"
      using "1.prems"(5) by (rule sink_write_append)
    have a5: "pos (sink_write t ?got) = length (content (sink_write t ?got))" by (simp add: w)
    from "1.IH" [OF refl rd [symmetric] refl False a1 "1.prems"(2) a3 a4 a5]
    obtain n s2 where r: "copy_loop ?s' (sink_write t ?got) m b (sz + int (length ?got)) =
        Inr (n, s2, (sink_write t ?got)\<lparr>content := content (sink_write t ?got) @ drop (pos ?s') (content ?s'),
               pos := length (content (sink_write t ?got)) + (length (content ?s') - pos ?s')\<rparr>)"
      by blast
    have "?got @ drop (length ?got) ?avail = ?avail"
      using take_drop_rejoin [of "nat ?n" ?avail] by (cases "?n < 0") simp_all
    moreover have "drop (pos ?s') (content ?s') = drop (length ?got) ?avail"
      by (simp add: add.commute)
    ultimately have pre: "?got @ drop (pos ?s') (content ?s') = ?avail" by simp
    have "(sink_write t ?got)\<lparr>content := content (sink_write t ?got) @ drop (pos ?s') (content ?s'),
               pos := length (content (sink_write t ?got)) + (length (content ?s') - pos ?s')\<rparr>
          = t\<lparr>content := content t @ drop (pos s) (content s),
                pos := length (content t) + (length (content s) - pos s)\<rparr>"
      using pre gl "1.prems"(3) by (simp add: w)
    with r step show ?thesis by simp
  qed
qed

lemma write_body_noop: "ln = [] \<and> nl = [] \<Longrightarrow> write_body p ln nl = Inr p"
  by (simp add: write_body_def)

lemma write_body_too_long:
  assumes "part_file p = Some f" and "part.content_length p = Some N"
    and "\<not> (ln = [] \<and> nl = [])" and "0 < N"
    and "N < part_size p + int (length ln) + int (length (buf p))"
  shows "write_body p ln nl = Inl (MultipartError BodyExceedsLength)"
  using assms by (auto simp: write_body_def Let_def)

lemma write_body_ok:
  assumes f: "part_file p = Some f" and cl: "part.content_length p = Some N"
    and ne: "\<not> (ln = [] \<and> nl = [])"
    and ok: "\<not> (0 < N \<and> N < part_size p + int (length ln) + int (length (buf p)))"
    and wf: "pos f = length (content f)" "part_size p = int (length (content f))"
    and bs: "part.buffer_size p \<noteq> 0"
  shows "write_body p ln nl =
     Inr (p\<lparr>part_size := part_size p + int (length ln) + int (length (buf p)), buf := nl,
            part_file := Some
              (if part.memfile_limit p < part_size p + int (length ln) + int (length (buf p))
                  \<and> kind f = BytesIO
               then \<lparr>kind = TemporaryFile, content = content f @ buf p @ ln,
                     pos = length (content f @ buf p @ ln), failing = False\<rparr>
               else f\<lparr>content := content f @ buf p @ ln,
                      pos := length (content f @ buf p @ ln)\<rparr>)\<rparr>)"
proof -
  let ?sz = "part_size p + int (length ln) + int (length (buf p))"
  let ?f' = "sink_write f (buf p @ ln)"
  have w: "?f' = f\<lparr>content := content f @ buf p @ ln, pos := length (content f @ buf p @ ln)\<rparr>"
    using wf(1) by (simp add: sink_write_append)
  show ?thesis
  proof (cases "part.memfile_limit p < ?sz \<and> kind f = BytesIO")
    case False
    then show ?thesis using f cl ne ok w by (auto simp: write_body_def Let_def)
  next
    case True
    let ?s = "sink_seek ?f' 0"
    let ?t = "new_sink TemporaryFile"
    have a1: "\<not> (kind ?s = TemporaryFile \<and> failing ?s)" using True by (simp add: w sink_seek_def)
    have a3: "pos ?s \<le> length (content ?s)" by (simp add: sink_seek_def)
    have a4: "?sz - 0 = int (length (content ?s) - pos ?s)"
      using wf(2) by (simp add: w sink_seek_def)
    have a5: "pos ?t = length (content ?t)" by (simp add: new_sink_def)
    have k: "kind ?f' = BytesIO" using True by (simp add: w)
    from copy_loop_complete [OF a1 bs a3 a4 a5]
    obtain n s' where "copy_file ?s ?t ?sz (part.buffer_size p) =
        Inr (n, s', ?t\<lparr>content := content ?t @ drop (pos ?s) (content ?s),
                        pos := length (content ?t) + (length (content ?s) - pos ?s)\<rparr>)"
      unfolding copy_file_def by blast
    moreover have "?t\<lparr>content := content ?t @ drop (pos ?s) (content ?s),
                        pos := length (content ?t) + (length (content ?s) - pos ?s)\<rparr>
        = \<lparr>kind = TemporaryFile, content = content f @ buf p @ ln,
           pos = length (content f @ buf p @ ln), failing = False\<rparr>"
      by (simp add: new_sink_def w sink_seek_def)
    ultimately have cf: "copy_file ?s ?t ?sz (part.buffer_size p) =
        Inr (n, s', \<lparr>kind = TemporaryFile, content = content f @ buf p @ ln,
                     pos = length (content f @ buf p @ ln), failing = False\<rparr>)"
      by simp
    have "write_body p ln nl =
            (case copy_file ?s ?t ?sz (part.buffer_size p) of
               Inl e \<Rightarrow> Inl e
             | Inr (n, old, new) \<Rightarrow> Inr (p\<lparr>part_size := ?sz, buf := nl, part_file := Some new\<rparr>))"
      using True f cl ne ok k unfolding write_body_def Let_def by auto
    also have "\<dots> = Inr (p\<lparr>part_size := ?sz, buf := nl,
        part_file := Some \<lparr>kind = TemporaryFile, content = content f @ buf p @ ln,
                           pos = length (content f @ buf p @ ln), failing = False\<rparr>\<rparr>)"
      unfolding cf by simp
    finally show ?thesis using True by simp
  qed
qed

lemma write_header_file:
  assumes "write_header p ln nl = Inr p'"
  shows "(part_file p' = part_file p \<or> part_file p' = Some (new_sink BytesIO))
       \<and> part_size p' = part_size p \<and> part.buffer_size p' = part.buffer_size p
       \<and> part.memfile_limit p' = part.memfile_limit p"
  using assms
  by (auto simp: write_header_def finish_header_def Let_def
           split: sum.splits if_splits prod.splits option.splits)

lemma copy_loop_no_error:
  "kind s = BytesIO \<Longrightarrow> \<exists>r. copy_loop s t m b sz = Inr r"
proof (induction s t m b sz rule: copy_loop.induct)
  case (1 s t m b sz)
  let ?n = "if m < 0 then b else min b (m - sz)"
  have nf: "\<not> (kind s = TemporaryFile \<and> failing s)" using "1.prems" by simp
  obtain got s' where rd: "sink_read s ?n = (Inr got, s')" and k: "kind s' = BytesIO"
    using sink_read_ok [OF nf, of ?n] "1.prems" by auto
  show ?case
  proof (cases "got = []")
    case True
    have "copy_loop s t m b sz = Inr (sz, s', t)"
      using rd True by (subst copy_loop.simps) (simp add: Let_def)
    then show ?thesis by (rule exI)
  next
    case False
    from "1.IH" [OF refl rd [symmetric] refl False k]
    obtain r where r: "copy_loop s' (sink_write t got) m b (sz + int (length got)) = Inr r" by blast
    have "copy_loop s t m b sz = copy_loop s' (sink_write t got) m b (sz + int (length got))"
      using rd False by (subst copy_loop.simps) (simp add: Let_def)
    with r have "copy_loop s t m b sz = Inr r" by simp
    then show ?thesis by (rule exI)
  qed
qed

lemma write_body_accepts:
  assumes "part_file p = Some f" and "part.content_length p = Some N"
    and "\<not> (ln = [] \<and> nl = [])"
    and "\<not> (0 < N \<and> N < part_size p + int (length ln) + int (length (buf p)))"
  shows "\<exists>f'. write_body p ln nl =
           Inr (p\<lparr>part_size := part_size p + int (length ln) + int (length (buf p)),
                  buf := nl, part_file := Some f'\<rparr>)"
proof -
  let ?sz = "part_size p + int (length ln) + int (length (buf p))"
  let ?f' = "sink_write f (buf p @ ln)"
  have k: "kind ?f' = kind f" by (simp add: sink_write_def Let_def)
  show ?thesis
  proof (cases "?sz > part.memfile_limit p \<and> kind f = BytesIO")
    case True
    then have "kind (sink_seek ?f' 0) = BytesIO" using k by (simp add: sink_seek_def)
    then obtain r where
      "copy_file (sink_seek ?f' 0) (new_sink TemporaryFile) ?sz (part.buffer_size p) = Inr r"
      unfolding copy_file_def using copy_loop_no_error by blast
    moreover obtain n old new where "r = (n, old, new)" by (cases r)
    ultimately show ?thesis using assms True k
      by (auto simp: write_body_def Let_def)
  next
    case False
    then show ?thesis using assms k by (auto simp: write_body_def Let_def)
  qed
qed


section \<open>Which errors a part can raise\<close>


lemma header_unquote_error: "header_unquote v b = Inl e \<Longrightarrow> e = IndexError"
  by (auto simp: header_unquote_def Let_def split: if_splits)

lemma store_options_error: "store_options uni ms m = Inl e \<Longrightarrow> e = IndexError"
  by (induction uni ms m rule: store_options.induct)
     (auto simp: Let_def split: sum.splits dest: header_unquote_error)

lemma parse_options_header_error: "parse_options_header uni h os = Inl e \<Longrightarrow> e = IndexError"
  by (auto simp: parse_options_header_def Let_def split: if_splits prod.splits sum.splits
           dest: store_options_error)

lemma py_int_error: "py_int s = Inl e \<Longrightarrow> e = ValueError"
  by (auto simp: py_int_def Let_def split: if_splits)

lemma copy_loop_error: "copy_loop s t m b sz = Inl e \<Longrightarrow> e = IOError"
proof (induction s t m b sz rule: copy_loop.induct)
  case (1 s t m b sz)
  let ?n = "if m < 0 then b else min b (m - sz)"
  obtain r s' where rd: "sink_read s ?n = (r, s')" by (cases "sink_read s ?n")
  show ?case
  proof (cases r)
    case (Inl x)
    with rd have "x = IOError" by (auto simp: sink_read_def Let_def split: if_splits)
    moreover have "copy_loop s t m b sz = Inl x"
      using rd Inl by (subst copy_loop.simps) (simp add: Let_def)
    ultimately show ?thesis using "1.prems" by simp
  next
    case (Inr got)
    show ?thesis
    proof (cases "got = []")
      case True
      have "copy_loop s t m b sz = Inr (sz, s', t)"
        using rd Inr True by (subst copy_loop.simps) (simp add: Let_def)
      with "1.prems" show ?thesis by simp
    next
      case False
      have "copy_loop s t m b sz = copy_loop s' (sink_write t got) m b (sz + int (length got))"
        using rd Inr False by (subst copy_loop.simps) (simp add: Let_def)
      with "1.prems" "1.IH" [OF refl _ refl False] rd Inr show ?thesis by simp
    qed
  qed
qed

lemma feed_error_kinds:
  assumes "feed p ln nl = Inl e"
  shows "e \<noteq> MultipartError MemoryLimit \<and> e \<noteq> MultipartError DiskLimit"
proof (cases "part_file p")
  case None
  with assms have "write_header p ln nl = Inl e" by (simp add: feed_def)
  then show ?thesis
    by (auto simp: write_header_def finish_header_def decode_def Let_def
             split: sum.splits if_splits prod.splits
             dest: parse_options_header_error py_int_error)
next
  case (Some f)
  with assms have "write_body p ln nl = Inl e" by (simp add: feed_def)
  then show ?thesis
    by (auto simp: write_body_def copy_file_def Let_def
             split: sum.splits if_splits prod.splits option.splits
             dest: copy_loop_error)
qed


section \<open>Properties of the line reader\<close>


lemma splitl_first:
  assumes "splitl cur s = l0 # ls" and "CR \<notin> set cur" and "LF \<notin> set cur"
  shows "\<exists>body eol. l0 = body @ eol \<and> CR \<notin> set body \<and> LF \<notin> set body
           \<and> eol \<in> {[], [LF], [CR], [CR, LF]}"
  using assms
proof (induction cur s rule: splitl.induct)
  case (1 cur)
  then have "l0 = cur @ []" by (simp split: if_splits)
  with 1 show ?case by blast
next
  case (2 cur c)
  then have l0: "l0 = cur @ [c]" by simp
  show ?case
  proof (cases "c = CR \<or> c = LF")
    case True
    with l0 2 show ?thesis by blast
  next
    case False
    with l0 2 have "l0 = (cur @ [c]) @ [] \<and> CR \<notin> set (cur @ [c]) \<and> LF \<notin> set (cur @ [c])" by auto
    then show ?thesis by blast
  qed
next
  case (3 cur c d r)
  show ?case
  proof (cases "c = CR \<and> d = LF")
    case True
    with 3 have "l0 = cur @ [CR, LF]" by simp
    with 3 show ?thesis by blast
  next
    case nf: False
    show ?thesis
    proof (cases "c = LF \<or> c = CR")
      case True
      with nf 3 have "l0 = cur @ [c]" by auto
      with True 3 show ?thesis by blast
    next
      case False
      with nf 3 have "splitl (cur @ [c]) (d # r) = l0 # ls" by auto
      moreover have "CR \<notin> set (cur @ [c])" "LF \<notin> set (cur @ [c])" using False 3 by auto
      ultimately show ?thesis using "3.IH"(3) nf False by blast
    qed
  qed
qed

lemma classify_plain: "CR \<notin> set a \<Longrightarrow> LF \<notin> set a \<Longrightarrow> classify a = (a, [])"
proof -
  assume a: "CR \<notin> set a" "LF \<notin> set a"
  have "\<not> endswith a [x]" if "x \<notin> set a" for x
  proof
    assume "endswith a [x]"
    then have "drop (length a - 1) a = [x]" by (simp add: endswith_def)
    then have "x \<in> set (drop (length a - 1) a)" by simp
    then show False using that by (meson in_set_dropD)
  qed
  moreover have "\<not> endswith a CRLF"
  proof
    assume "endswith a CRLF"
    then have "drop (length a - 2) a = CRLF" by (simp add: endswith_def eval_nat_numeral)
    then have "CR \<in> set (drop (length a - 2) a)" by simp
    then show False using a by (meson in_set_dropD)
  qed
  ultimately show ?thesis using a by (simp add: classify_def)
qed


lemma endswith_iff: "endswith s suf \<longleftrightarrow> (\<exists>pre. s = pre @ suf)"
proof
  assume "endswith s suf"
  then have "drop (length s - length suf) s = suf" by (simp add: endswith_def)
  then have "s = take (length s - length suf) s @ suf"
    by (metis append_take_drop_id)
  then show "\<exists>pre. s = pre @ suf" ..
next
  assume "\<exists>pre. s = pre @ suf"
  then show "endswith s suf" by (auto simp: endswith_def)
qed

lemma line_end_crlf:
  assumes "endswith (body @ eol) CRLF" and "CR \<notin> set body" and "LF \<notin> set body"
    and "eol \<in> {[], [LF], [CR], [CR, LF]}"
  shows "eol = CRLF"
proof -
  from assms(1) obtain pre where p: "body @ eol = pre @ CRLF" using endswith_iff by blast
  show ?thesis
  proof (rule ccontr)
    assume n: "eol \<noteq> CRLF"
    with assms(4) consider "eol = []" | "eol = [LF]" | "eol = [CR]" by auto
    then show False
    proof cases
      case 1
      with p have "body = pre @ CRLF" by simp
      then have "CR \<in> set body" by simp
      with assms(2) show False by simp
    next
      case 2
      with p have "body @ [LF] = (pre @ [CR]) @ [LF]" by simp
      then have "body = pre @ [CR]" by (simp only: append1_eq_conv)
      then have "CR \<in> set body" by simp
      with assms(2) show False by simp
    next
      case 3
      with p have "body @ [CR] = (pre @ [CR]) @ [LF]" by simp
      then have "CR = LF" by (simp only: append1_eq_conv)
      then show False by simp
    qed
  qed
qed

lemma first_line_head:
  assumes L: "0 \<le> L" and sl: "splitlines s = l0 # ls" and long: "L < int (length l0)"
  shows "\<exists>a b. split_first_line L l0 ls = a # b # ls
          \<and> a @ b = l0
          \<and> int (length a) = (if int (length l0) = L + 1 \<and> endswith l0 CRLF then L - 1 else L)
          \<and> CR \<notin> set a \<and> LF \<notin> set a
          \<and> b \<noteq> []
          \<and> (int (length l0) = L + 1 \<and> endswith l0 CRLF \<longrightarrow> b = CRLF)"
proof -
  from sl obtain body eol where bt: "l0 = body @ eol" "CR \<notin> set body" "LF \<notin> set body"
      "eol \<in> {[], [LF], [CR], [CR, LF]}"
    using splitl_first [of "[]" s l0 ls] by (auto simp: splitlines_def)
  let ?special = "int (length l0) = L + 1 \<and> endswith l0 CRLF"
  let ?sp = "if ?special then L - 1 else L"
  have t: "eol = CRLF" if "endswith l0 CRLF"
    using that bt line_end_crlf by blast
  have sp0: "0 \<le> ?sp"
  proof (cases ?special)
    case True
    then have "eol = CRLF" using t by blast
    with bt(1) have "2 \<le> length l0" by simp
    with True show ?thesis by simp
  next
    case False
    with L show ?thesis by auto
  qed
  have spb: "nat ?sp \<le> length body"
  proof (cases ?special)
    case True
    then have "eol = CRLF" using t by blast
    with bt(1) have "int (length l0) = int (length body) + 2" by simp
    with True have "L - 1 = int (length body)" by linarith
    with True show ?thesis by simp
  next
    case False
    then have sp: "?sp = L" by auto
    show ?thesis
    proof (cases "endswith l0 CRLF")
      case True
      then have "eol = CRLF" using t by blast
      with bt(1) have "int (length l0) = int (length body) + 2" by simp
      moreover have "int (length l0) \<noteq> L + 1" using False True by blast
      ultimately have "L \<le> int (length body)" using long by linarith
      with sp show ?thesis by simp
    next
      case ne: False
      have "eol \<noteq> CRLF" using ne bt(1) by (auto simp: endswith_iff)
      with bt(4) have "length eol \<le> 1" by auto
      with bt(1) have "int (length l0) \<le> int (length body) + 1" by simp
      with long have "L \<le> int (length body)" by linarith
      with sp show ?thesis by simp
    qed
  qed
  have spl: "nat ?sp < length l0" using long sp0 by (auto split: if_splits)
  let ?a = "take (nat ?sp) l0"
  let ?b = "drop (nat ?sp) l0"
  have sf: "split_first_line L l0 ls = ?a # ?b # ls"
    using long sp0 by (simp add: split_first_line_def py_take_def py_drop_def Let_def)
  have ab: "?a = take (nat ?sp) body" using spb bt(1) by simp
  then have "set ?a \<subseteq> set body" by (metis set_take_subset)
  then have na: "CR \<notin> set ?a" "LF \<notin> set ?a" using bt(2,3) by blast+
  have la: "int (length ?a) = ?sp" using spl sp0 by simp
  have bne: "?b \<noteq> []" using spl by simp
  have bsp: "?b = CRLF" if sp: ?special
  proof -
    have "eol = CRLF" using t sp by blast
    with bt(1) have l: "l0 = body @ CRLF" by simp
    then have "int (length l0) = int (length body) + 2" by simp
    with sp have "L - 1 = int (length body)" by linarith
    with sp have "nat ?sp = length body" by simp
    then show ?thesis using l by simp
  qed
  from sf la na bne bsp show ?thesis
    by (intro exI [of _ ?a] exI [of _ ?b]) simp
qed


section \<open>Properties of the size counters\<close>

lemma sealed_same:
  "part_file cur = Some f \<Longrightarrow>
     is_buffered (cur\<lparr>part_file := Some (sink_seek f 0)\<rparr>) = is_buffered cur
     \<and> part_size (cur\<lparr>part_file := Some (sink_seek f 0)\<rparr>) = part_size cur"
  by (simp add: is_buffered_def sink_seek_def)

lemma separator_not_terminator: "separator P \<noteq> terminator P"
  by (simp add: separator_def terminator_def)

lemma loop_body_YieldLast:
  "loop_body P m d t cur ln nl = YieldLast q \<Longrightarrow>
     ln = terminator P \<and> \<not> t
     \<and> (\<exists>f. part_file cur = Some f \<and> q = cur\<lparr>part_file := Some (sink_seek f 0)\<rparr>)"
  by (auto simp: loop_body_def Let_def split: if_splits option.splits sum.splits)

lemma loop_body_YieldNext:
  "loop_body P m d t cur ln nl = YieldNext q m' d' \<Longrightarrow>
     ln = separator P \<and> \<not> t
     \<and> (\<exists>f. part_file cur = Some f \<and> q = cur\<lparr>part_file := Some (sink_seek f 0)\<rparr>)
     \<and> m' = (if is_buffered cur then m + part_size cur else m)
     \<and> d' = (if is_buffered cur then d else d + part_size cur)"
  by (auto simp: loop_body_def Let_def split: if_splits option.splits sum.splits)

lemma loop_body_Continue:
  "loop_body P m d t cur ln nl = Continue t' cur' \<Longrightarrow>
     feed cur ln nl = Inr cur' \<and> t' = (nl = [])
     \<and> (if is_buffered cur' then part_size cur' + m \<le> mem_limit P
         else part_size cur' + d \<le> disk_limit P)"
  by (auto simp: loop_body_def Let_def split: if_splits option.splits sum.splits)

lemma parse_loop_counts:
  assumes "parse_loop P li st m d t cur ln0 = (Yield p, g', st')"
    and "m \<le> mem_limit P" and "d \<le> disk_limit P"
    and "if is_buffered cur then part_size cur + m \<le> mem_limit P
         else part_size cur + d \<le> disk_limit P"
  shows "((\<exists>li' t' ln'. g' = AfterSeparator li'
              (m + (if is_buffered p then part_size p else 0))
              (d + (if is_buffered p then 0 else part_size p)) t' ln')
          \<or> g' = AfterTerminator)
       \<and> m + (if is_buffered p then part_size p else 0) \<le> mem_limit P
       \<and> d + (if is_buffered p then 0 else part_size p) \<le> disk_limit P"
  using assms
proof (induction P li st m d t cur ln0 rule: parse_loop.induct)
  case (1 P li st m d t cur ln0)
  obtain r li1 st1 where ln: "lines_next (buffer_size P) li st = (r, li1, st1)"
    by (cases "lines_next (buffer_size P) li st") auto
  show ?case
  proof (cases r)
    case (Inl e)
    with ln "1.prems"(1) show ?thesis by (subst (asm) parse_loop.simps) simp
  next
    case (Inr o1)
    show ?thesis
    proof (cases o1)
      case None
      with Inr ln "1.prems"(1) show ?thesis
        by (subst (asm) parse_loop.simps) (simp split: if_splits)
    next
      case (Some xa)
      obtain ln1 nl where xa: "xa = (ln1, nl)" by (cases xa)
      have e: "lines_next (buffer_size P) li st = (Inr (Some (ln1, nl)), li1, st1)"
        using ln Inr Some xa by simp
      show ?thesis
      proof (cases "loop_body P m d t cur ln1 nl")
        case (Raised e')
        with e "1.prems"(1) show ?thesis by (subst (asm) parse_loop.simps) simp
      next
        case (YieldLast q)
        with e "1.prems"(1) have pq: "p = q" "g' = AfterTerminator"
          by (subst (asm) parse_loop.simps, simp)+
        from loop_body_YieldLast [OF YieldLast] obtain f where
          f: "part_file cur = Some f" "q = cur\<lparr>part_file := Some (sink_seek f 0)\<rparr>" by blast
        from sealed_same [OF f(1)] f(2) pq have
          "is_buffered p = is_buffered cur" "part_size p = part_size cur" by simp_all
        with pq "1.prems"(2,3,4) show ?thesis by (auto split: if_splits)
      next
        case (YieldNext q m' d')
        with e "1.prems"(1) have pq: "p = q" "g' = AfterSeparator li1 m' d' t ln1"
          by (subst (asm) parse_loop.simps, simp)+
        from loop_body_YieldNext [OF YieldNext] obtain f where
          f: "part_file cur = Some f" "q = cur\<lparr>part_file := Some (sink_seek f 0)\<rparr>"
          and md: "m' = (if is_buffered cur then m + part_size cur else m)"
                  "d' = (if is_buffered cur then d else d + part_size cur)" by blast
        from sealed_same [OF f(1)] f(2) pq have
          "is_buffered p = is_buffered cur" "part_size p = part_size cur" by simp_all
        with pq md "1.prems"(2,3,4) show ?thesis by (auto split: if_splits)
      next
        case (Continue t' cur')
        have r: "parse_loop P li1 st1 m d t' cur' ln1 = (Yield p, g', st')"
          using e Continue "1.prems"(1) by (subst (asm) parse_loop.simps) simp
        from loop_body_Continue [OF Continue] have
          c: "if is_buffered cur' then part_size cur' + m \<le> mem_limit P
              else part_size cur' + d \<le> disk_limit P" by blast
        from "1.IH" [OF e [symmetric] refl refl refl refl Continue r "1.prems"(2,3) c]
        show ?thesis .
      qed
    qed
  qed
qed

lemma totals_snoc:
  "mem_total (acc @ [p]) = mem_total acc + (if is_buffered p then part_size p else 0)"
  "disk_total (acc @ [p]) = disk_total acc + (if is_buffered p then 0 else part_size p)"
  by (simp_all add: mem_total_def disk_total_def)

lemma new_part_unbuffered: "\<not> is_buffered (new_part P) \<and> part_size (new_part P) = 0"
  by (simp add: new_part_def MultipartPart_def is_buffered_def)

lemma iterparse_next_counts:
  assumes n: "iterparse_next P g st = (Yield p, g', st')" and c: "gen_counts P g acc"
  shows "gen_counts P g' (acc @ [p])"
proof -
  have step: "gen_counts P g' (acc @ [p])"
    if pl: "parse_loop P li0 st0 (mem_total acc) (disk_total acc) t (new_part P) ln0 = (Yield p, g', st')"
    for li0 st0 t ln0
  proof -
    have a2: "mem_total acc \<le> mem_limit P" and a3: "disk_total acc \<le> disk_limit P"
      using c by (simp_all add: gen_counts_def)
    have a4: "if is_buffered (new_part P) then part_size (new_part P) + mem_total acc \<le> mem_limit P
              else part_size (new_part P) + disk_total acc \<le> disk_limit P"
      using a3 new_part_unbuffered by simp
    note r = parse_loop_counts [OF pl a2 a3 a4]
    then show ?thesis by (auto simp: gen_counts_def totals_snoc)
  qed
  show ?thesis
  proof (cases g)
    case NotStarted
    with c have acc: "acc = []" by (simp add: gen_counts_def)
    obtain r li1 st1 where sb:
      "skip_blank (buffer_size P) (lineiter_start (content_length P)) st = (r, li1, st1)"
      by (cases "skip_blank (buffer_size P) (lineiter_start (content_length P)) st") auto
    from n NotStarted sb obtain ln where
      "parse_loop P li1 st1 0 0 False (new_part P) ln = (Yield p, g', st')"
      by (auto simp: iterparse_next_def split: sum.splits if_splits)
    then have "parse_loop P li1 st1 (mem_total acc) (disk_total acc) False (new_part P) ln
                 = (Yield p, g', st')"
      using acc by (simp add: mem_total_def disk_total_def)
    then show ?thesis by (rule step)
  next
    case (AfterSeparator li m d t ln)
    with c have md: "m = mem_total acc" "d = disk_total acc" by (simp_all add: gen_counts_def)
    from n AfterSeparator have "parse_loop P li st m d t (new_part P) ln = (Yield p, g', st')"
      by (simp add: iterparse_next_def)
    with md show ?thesis using step by simp
  next
    case AfterTerminator
    with n show ?thesis by (simp add: iterparse_next_def)
  next
    case Finished
    with n show ?thesis by (simp add: iterparse_next_def)
  qed
qed

lemma drain_counts:
  "drain P g st acc = (ys, e, g', st') \<Longrightarrow> gen_counts P g acc \<Longrightarrow>
     mem_total ys \<le> mem_limit P \<and> disk_total ys \<le> disk_limit P"
proof (induction P g st acc rule: drain.induct)
  case (1 P g st acc)
  obtain r g1 st1 where n: "iterparse_next P g st = (r, g1, st1)"
    by (cases "iterparse_next P g st") auto
  show ?case
  proof (cases r)
    case (Yield p)
    with n "1.prems"(1) have d: "drain P g1 st1 (acc @ [p]) = (ys, e, g', st')"
      by (subst (asm) drain.simps) simp
    from n Yield have "iterparse_next P g st = (Yield p, g1, st1)" by simp
    then have "gen_counts P g1 (acc @ [p])" using "1.prems"(2) by (rule iterparse_next_counts)
    with "1.IH" [OF n [symmetric] Yield refl d] show ?thesis by simp
  next
    case Stop
    with n "1.prems"(1) have "ys = acc" by (subst (asm) drain.simps) simp
    with "1.prems"(2) show ?thesis by (simp add: gen_counts_def)
  next
    case (Raise x)
    with n "1.prems"(1) have "ys = acc" by (subst (asm) drain.simps) simp
    with "1.prems"(2) show ?thesis by (simp add: gen_counts_def)
  qed
qed

lemma constructed_limits:
  assumes "MultipartParser st0 b clen dl ml mfl bs cs = Inr P"
  shows "6 \<le> buffer_size P \<and> buffer_size P \<le> mem_limit P \<and> mem_limit P \<le> disk_limit P
       \<and> done_parts P = [] \<and> part_iter P = None \<and> stream P = st0"
  using assms by (auto simp: MultipartParser_def Let_def split: if_splits)

lemma parts_totals:
  assumes "MultipartParser st0 b clen dl ml mfl bs cs = Inr P" and "parts P = ((ys, e), P')"
  shows "mem_total ys \<le> mem_limit P \<and> disk_total ys \<le> disk_limit P"
proof -
  note cl = constructed_limits [OF assms(1)]
  obtain ys' e' g' st' where d: "drain P NotStarted (stream P) [] = (ys', e', g', st')"
    by (cases "drain P NotStarted (stream P) []") auto
  with assms(2) cl have "ys' = ys" by (simp add: parts_def)
  moreover have "gen_counts P NotStarted []"
    using cl by (simp add: gen_counts_def mem_total_def disk_total_def)
  ultimately show ?thesis using drain_counts [OF d] by simp
qed

section \<open>Properties of the option matches\<close>

lemma re_plus_all: "(y, z) \<in> set (re_plus P x) \<Longrightarrow> \<forall>c \<in> set y. P c"
proof -
  assume "(y, z) \<in> set (re_plus P x)"
  then obtain k where "k < Suc (length (takeWhile P x))" and k2: "y = take k x"
    unfolding re_plus_def by (auto simp del: upt_Suc)
  then have k1: "k \<le> length (takeWhile P x)" by simp
  note k = k1 k2
  have "take k (takeWhile P x @ dropWhile P x) = take k (takeWhile P x)"
    using k(1) by (simp del: takeWhile_dropWhile_id)
  then have "take k x = take k (takeWhile P x)" by simp
  then have "set y \<subseteq> set (takeWhile P x)" using k(2) by (simp add: set_take_subset)
  then show ?thesis by (auto dest: set_takeWhileD)
qed

lemma re_qtail_suffix: "z \<in> set (re_qtail r) \<Longrightarrow> \<exists>p. r = p @ DQ # z"
proof (induction r arbitrary: z rule: re_qtail.induct)
  case 1
  then show ?case by simp
next
  case (2 c)
  then show ?case by (simp split: if_splits)
next
  case (3 c d r)
  from "3.prems" consider "c = BSL" "d \<noteq> LF" "z \<in> set (re_qtail r)"
    | "c \<noteq> DQ" "z \<in> set (re_qtail (d # r))" | "c = DQ" "z = d # r"
    by (auto split: if_splits)
  then show ?case
  proof cases
    case 1
    then obtain p where "r = p @ DQ # z" using "3.IH"(1) by blast
    then have "c # d # r = (c # d # p) @ DQ # z" by simp
    then show ?thesis by blast
  next
    case 2
    then obtain p where "d # r = p @ DQ # z" using "3.IH"(2) by blast
    then have "c # d # r = (c # p) @ DQ # z" by simp
    then show ?thesis by blast
  next
    case 3
    then have "c # d # r = [] @ DQ # z" by simp
    then show ?thesis by blast
  qed
qed

lemma re_qstr_shape:
  assumes "(y, z) \<in> set (re_qstr x)"
  shows "hd y = DQ \<and> last y = DQ \<and> 2 \<le> length y"
proof -
  from assms obtain r where r: "x = DQ # r" "z \<in> set (re_qtail r)"
    "y = take (length x - length z) x"
    by (cases x) (auto simp: re_qstr_def split: if_splits)
  from re_qtail_suffix [OF r(2)] obtain p where p: "r = p @ DQ # z" by blast
  have "x = (DQ # p @ [DQ]) @ z" using r(1) p by simp
  then have "y = DQ # p @ [DQ]" using r(3) by simp
  then show ?thesis by simp
qed

lemma re_option_shape:
  assumes "(k, v, rest) \<in> set (re_option b s)"
  shows "k \<noteq> [] \<and> (\<forall>c \<in> set k. nonspecial c)
         \<and> v \<noteq> [] \<and> ((\<forall>c \<in> set v. nonspecial c) \<or> hd v = DQ \<and> last v = DQ \<and> 2 \<le> length v)"
proof -
  from assms obtain s1 w1 s2 s3 w2 s4 s5 w3 s6 where p:
    "s1 \<in> set (re_lit (CHR '';'') s) \<or> (b \<and> s1 = s)" "(w1, s2) \<in> set (re_star re_space s1)"
    "(k, s3) \<in> set (re_plus nonspecial s2)" "(w2, s4) \<in> set (re_star re_space s3)"
    "s5 \<in> set (re_lit (CHR ''='') s4)" "(w3, s6) \<in> set (re_star re_space s5)"
    "(v, rest) \<in> set (re_value s6)"
    by (rule re_option_parts)
  have k: "k \<noteq> []" "\<forall>c \<in> set k. nonspecial c"
    using p(3) re_plus_len re_plus_all by blast+
  have v: "v \<noteq> []" using p(7) re_value_len by blast
  from p(7) have "(v, rest) \<in> set (re_plus nonspecial s6) \<or> (v, rest) \<in> set (re_qstr s6)"
    by (simp add: re_value_def)
  then have "(\<forall>c \<in> set v. nonspecial c) \<or> hd v = DQ \<and> last v = DQ \<and> 2 \<le> length v"
    using re_plus_all re_qstr_shape by blast
  with k v show ?thesis by simp
qed

lemma finditer_match:
  "(k, v) \<in> set (finditer b s) \<Longrightarrow> \<exists>b' s' rest. (k, v, rest) \<in> set (re_option b' s')"
proof (induction b s rule: finditer.induct)
  case (1 at_start s)
  show ?case
  proof (cases "re_option at_start s")
    case Nil
    show ?thesis
    proof (cases s)
      case n: Nil
      with Nil "1.prems" show ?thesis by (subst (asm) finditer.simps) simp
    next
      case (Cons c r)
      with Nil "1.prems" have "(k, v) \<in> set (finditer False r)"
        by (subst (asm) finditer.simps) simp
      with "1.IH"(1) [OF Nil Cons] show ?thesis by simp
    qed
  next
    case (Cons x xs)
    obtain key val rest where x: "x = (key, val, rest)" by (cases x)
    with Cons "1.prems" have "(k, v) = (key, val) \<or> (k, v) \<in> set (finditer False rest)"
      by (subst (asm) finditer.simps) simp
    then show ?thesis
    proof
      assume "(k, v) = (key, val)"
      moreover have "(key, val, rest) \<in> set (re_option at_start s)" using Cons x by simp
      ultimately show ?thesis by blast
    next
      assume "(k, v) \<in> set (finditer False rest)"
      with "1.IH"(2) [OF Cons x [symmetric] refl] show ?thesis by simp
    qed
  qed
qed

lemma finditer_shape:
  assumes "(k, v) \<in> set (finditer b s)"
  shows "k \<noteq> [] \<and> (\<forall>c \<in> set k. nonspecial c)
         \<and> v \<noteq> [] \<and> ((\<forall>c \<in> set v. nonspecial c) \<or> hd v = DQ \<and> last v = DQ \<and> 2 \<le> length v)"
proof -
  from finditer_match [OF assms] obtain b' s' rest where
    "(k, v, rest) \<in> set (re_option b' s')" by blast
  then show ?thesis by (rule re_option_shape)
qed

lemma finditer_nonempty:
  "(k, v) \<in> set (finditer b s) \<Longrightarrow> k \<noteq> [] \<and> v \<noteq> []"
  using finditer_shape by blast

lemma header_unquote_flag: "header_unquote v a = header_unquote v b"
  by (simp add: header_unquote_def)

lemma header_unquote_total: "v \<noteq> [] \<Longrightarrow> \<exists>u. \<forall>b. header_unquote v b = Inr u"
  by (simp add: header_unquote_def Let_def)

lemma map_upd_add_last:
  "m(k \<mapsto> u) ++ map_of xs = m ++ map_of (xs @ [(k, u)])"
  by (rule ext) (simp add: map_add_def split: option.splits)

lemma store_options_eq:
  "\<forall>(k, v) \<in> set ms. v \<noteq> [] \<Longrightarrow>
     store_options uni ms m =
       Inr (m ++ map_of (rev (map (\<lambda>(k, v). (py_lower uni k, projr (header_unquote v False))) ms)))"
proof (induction ms arbitrary: m)
  case Nil
  show ?case by simp
next
  case (Cons x ms)
  obtain k v where x: "x = (k, v)" by (cases x)
  with Cons.prems have v: "v \<noteq> []" and rest: "\<forall>(k, v) \<in> set ms. v \<noteq> []" by auto
  let ?u = "projr (header_unquote v False)"
  let ?f = "\<lambda>(k, v). (py_lower uni k, projr (header_unquote v False))"
  from header_unquote_total [OF v] obtain u where u: "\<And>b. header_unquote v b = Inr u"
    by blast
  have uu: "?u = u" by (simp add: u)
  have "store_options uni (x # ms) m = store_options uni ms (m(py_lower uni k \<mapsto> u))"
    by (simp add: x u Let_def)
  then have "store_options uni (x # ms) m = store_options uni ms (m(py_lower uni k \<mapsto> ?u))"
    by (simp only: uu)
  also have "\<dots> = Inr (m(py_lower uni k \<mapsto> ?u) ++ map_of (rev (map ?f ms)))"
    by (rule Cons.IH [OF rest])
  also have "m(py_lower uni k \<mapsto> ?u) ++ map_of (rev (map ?f ms))
             = m ++ map_of (rev (map ?f (x # ms)))"
  proof -
    have e1: "rev (map ?f (x # ms)) = rev (map ?f ms) @ [(py_lower uni k, ?u)]"
      by (simp add: x)
    show ?thesis unfolding e1 by (rule map_upd_add_last)
  qed
  finally show ?case .
qed


lemma split_first_decomp:
  "c \<in> set s \<Longrightarrow>
     s = fst (split_first c s) @ c # snd (split_first c s) \<and> c \<notin> set (fst (split_first c s))"
  unfolding split_first_def by (induction s) auto

(*CLAIMS*)

text \<open>
  Claim C10. \<open>header_unquote\<close> never looks at its \<open>filename\<close> argument: a value that
  begins and ends with a double quote and whose content between the quotes has \<open>:\\\<close> as
  its second and third characters, or begins with two backslashes, is replaced by what
  follows its last backslash, whatever the option key was.
\<close>

theorem header_unquote_windows_path:
  assumes "val \<noteq> []" and "hd val = DQ" and "last val = DQ"
    and "take 2 (drop 1 (butlast (tl val))) = [CHR '':'', BSL] \<or> take 2 (butlast (tl val)) = [BSL, BSL]"
  shows "header_unquote val flag = Inr (split_last BSL (butlast (tl val)))
       \<and> BSL \<notin> set (split_last BSL (butlast (tl val)))
       \<and> (\<exists>pre. butlast (tl val) = pre @ BSL # split_last BSL (butlast (tl val)))
       \<and> header_unquote val True = header_unquote val False"
proof -
  let ?v = "butlast (tl val)"
  have no: "BSL \<notin> set (split_last BSL ?v)" by (rule split_last_no_sep)
  have "header_unquote val fn = Inr (split_last BSL ?v)" for fn
    using assms no by (simp add: header_unquote_def Let_def replace2_absent)
  moreover have "\<exists>pre. ?v = pre @ BSL # split_last BSL ?v"
    using assms(4) win_path_has_bsl split_last_decomp by blast
  ultimately show ?thesis using no by simp
qed

theorem header_unquote_windows_path_witness:
  "header_unquote ([DQ] @ ''C:'' @ [BSL] @ ''dir'' @ [BSL] @ ''f.txt'' @ [DQ]) False = Inr ''f.txt''
   \<and> header_unquote ([DQ] @ ''C:'' @ [BSL] @ ''dir'' @ [BSL] @ ''f.txt'' @ [DQ]) True = Inr ''f.txt''"
  using header_unquote_windows_path
    [of "[DQ] @ ''C:'' @ [BSL] @ ''dir'' @ [BSL] @ ''f.txt'' @ [DQ]" False]
  by (simp add: split_last_def)

text \<open>
  Claim C1. With the default configuration and the boundary \<open>B\<close>, the stream
  \<open>--B\r\nContent-Disposition: form-data; name="a"\r\n\r\nhello\r\n--B--\r\n\<close> is parsed
  without an exception into exactly one part; the part is named \<open>a\<close>, it is sealed (its
  sink is at position 0), and its raw body is \<open>hello\<close>, without the line end that
  precedes the terminator line.
\<close>

theorem scenario_one_part:
  "case default_parser \<lparr>data = scenario_stream, reads = 0\<rparr> ''B'' of
     Inl e \<Rightarrow> False
   | Inr P \<Rightarrow>
      (case parts P of
         ((ys, e), P') \<Rightarrow>
           e = None \<and> length ys = 1 \<and> name (hd ys) = Some ''a''
           \<and> fst (raw (hd ys)) = Inr ''hello''
           \<and> map_option pos (part_file (hd ys)) = Some 0
           \<and> map_option content (part_file (hd ys)) = Some ''hello'')"
  by code_simp

text \<open>
  Claim C7 says that a stream which ends before a terminator line has been recognized makes
  the parser fail with the error "Unexpected end of multipart stream". The check after the
  loop compares the last line with the terminator instead of asking whether the loop was
  left at a recognized terminator. With \<open>buffer_size = 64\<close> the body line of
  \<open>tail_stream\<close> is cut after 64 bytes; its rest \<open>--B--\<close> arrives with \<open>is_tail\<close> set, so
  it is fed to the part as body data and not recognized. The stream then ends, the last
  line equals the terminator, and the iteration ends without an exception and without
  having yielded any part.
\<close>

theorem tail_terminator_ends_silently:
  "case MultipartParser \<lparr>data = tail_stream, reads = 0\<rparr> ''B''
          (- 1) (2 ^ 30) (2 ^ 20) (2 ^ 18) 64 ''latin1'' of
     Inl e \<Rightarrow> False
   | Inr P \<Rightarrow>
      (case parts P of
         ((ys, e), P') \<Rightarrow> ys = [] \<and> e = None \<and> data (stream P') = [])"
  by code_simp

text \<open>
  Claim C8. A second full iteration over a parser yields the same parts in the same
  order as the first one; it takes them from the cache and does not touch the stream: no
  further \<open>read\<close> call is made and the parser is left exactly as the first iteration left
  it. (When the first iteration ended with an exception, the second one yields the parts
  that had been produced until then and ends normally.)
\<close>

theorem parts_twice:
  "case parts P of
     ((ys, e), P') \<Rightarrow>
       (case parts P' of
          ((ys', e'), P'') \<Rightarrow>
            ys' = ys \<and> e' = None \<and> stream P'' = stream P'
            \<and> reads (stream P'') = reads (stream P') \<and> P'' = P' \<and> done_parts P' = ys)"
proof -
  let ?g = "case part_iter P of None \<Rightarrow> NotStarted | Some g \<Rightarrow> g"
  obtain ys e g' st' where d: "drain P ?g (stream P) (done_parts P) = (ys, e, g', st')"
    by (cases "drain P ?g (stream P) (done_parts P)") auto
  then have fin: "g' = Finished" by (rule drain_ends_finished)
  let ?P' = "P\<lparr>stream := st', done_parts := ys, part_iter := Some g'\<rparr>"
  have p: "parts P = ((ys, e), ?P')" using d by (simp add: parts_def)
  have "drain ?P' Finished st' ys = (ys, None, Finished, st')" by (rule drain_finished)
  then have "parts ?P' = ((ys, None), ?P')" using fin by (simp add: parts_def)
  with p show ?thesis by simp
qed

text \<open>
  Claim C9. For a part that has a body sink, at whatever position the sink is, reading
  \<open>raw\<close> gives the whole body and leaves the sink at the position it had before; when the
  read fails with an I/O error the error comes out and the position is restored as well.
\<close>

theorem raw_keeps_position:
  assumes "part_file p = Some f"
  shows "case raw p of
           (r, p') \<Rightarrow>
             map_option pos (part_file p') = Some (pos f)
             \<and> part_file p' = Some f
             \<and> p' = p
             \<and> r = (if kind f = TemporaryFile \<and> failing f then Inl IOError else Inr (content f))"
  using assms by (cases f) (auto simp: raw_def sink_read_def sink_seek_def sink_tell_def Let_def)

theorem raw_keeps_position_witness:
  "part_file sealed_example
     = Some \<lparr>kind = TemporaryFile, content = ''hello'', pos = 3, failing = False\<rparr>
   \<and> fst (raw sealed_example) = Inr ''hello''
   \<and> map_option pos (part_file (snd (raw sealed_example))) = Some 3
   \<and> fst (raw (sealed_example\<lparr>part_file :=
        Some \<lparr>kind = TemporaryFile, content = ''hello'', pos = 3, failing = True\<rparr>\<rparr>)) = Inl IOError
   \<and> map_option pos (part_file (snd (raw (sealed_example\<lparr>part_file :=
        Some \<lparr>kind = TemporaryFile, content = ''hello'', pos = 3, failing = True\<rparr>\<rparr>)))) = Some 3"
proof -
  let ?f = "\<lparr>kind = TemporaryFile, content = ''hello'', pos = 3, failing = False\<rparr>"
  let ?g = "\<lparr>kind = TemporaryFile, content = ''hello'', pos = 3, failing = True\<rparr>"
  have h1: "part_file sealed_example = Some ?f" by (simp add: sealed_example_def)
  have h2: "part_file (sealed_example\<lparr>part_file := Some ?g\<rparr>) = Some ?g" by simp
  from raw_keeps_position [OF h1] raw_keeps_position [OF h2] h1
  show ?thesis by (auto split: prod.splits)
qed

text \<open>
  Claim C3. For a part in its body state that declares a positive Content-Length \<open>N\<close>,
  feeding a line raises "Size of body exceeds Content-Length header" exactly when the size
  after this line is larger than \<open>N\<close>: at \<open>N\<close> bytes nothing is raised, at \<open>N + 1\<close> it is.
  Feeding raises no other error, and a part that is accepted has a size of at most \<open>N\<close> if
  it had one before.
\<close>

theorem body_length_checked:
  assumes "part_file p = Some f" and "part.content_length p = Some N" and "0 < N"
  shows "(feed p ln nl = Inl (MultipartError BodyExceedsLength)
            \<longleftrightarrow> \<not> (ln = [] \<and> nl = []) \<and> N < part_size p + int (length ln) + int (length (buf p)))
       \<and> (\<forall>e. feed p ln nl = Inl e \<longrightarrow> e = MultipartError BodyExceedsLength)
       \<and> (\<forall>p'. feed p ln nl = Inr p' \<longrightarrow>
             part_size p' = (if ln = [] \<and> nl = [] then part_size p
                             else part_size p + int (length ln) + int (length (buf p)))
             \<and> part.content_length p' = Some N
             \<and> (part_size p \<le> N \<longrightarrow> part_size p' \<le> N))"
proof -
  have fd: "feed p ln nl = write_body p ln nl" using assms(1) by (simp add: feed_def)
  show ?thesis
  proof (cases "ln = [] \<and> nl = []")
    case True
    then have "write_body p ln nl = Inr p" by (rule write_body_noop)
    with fd True assms(2) show ?thesis by auto
  next
    case ne: False
    show ?thesis
    proof (cases "N < part_size p + int (length ln) + int (length (buf p))")
      case True
      have "write_body p ln nl = Inl (MultipartError BodyExceedsLength)"
        using assms(1,2) ne assms(3) True by (rule write_body_too_long)
      with fd ne True show ?thesis by auto
    next
      case False
      then have "\<not> (0 < N \<and> N < part_size p + int (length ln) + int (length (buf p)))" by simp
      from write_body_accepts [OF assms(1,2) ne this] obtain f' where
        "write_body p ln nl = Inr (p\<lparr>part_size := part_size p + int (length ln) + int (length (buf p)),
                                     buf := nl, part_file := Some f'\<rparr>)" by blast
      with fd ne False assms(2) show ?thesis by auto
    qed
  qed
qed

theorem body_length_checked_witness:
  "part_file declared_five = Some (new_sink BytesIO)
   \<and> part.content_length declared_five = Some 5 \<and> (0::int) < 5
   \<and> feed declared_five ''hello!'' CRLF = Inl (MultipartError BodyExceedsLength)
   \<and> feed declared_five ''hello'' CRLF \<noteq> Inl (MultipartError BodyExceedsLength)"
proof -
  have h1: "part_file declared_five = Some (new_sink BytesIO)" by code_simp
  have h2: "part.content_length declared_five = Some 5" by code_simp
  have h3: "(0::int) < 5" by simp
  have b1: "buf declared_five = []" by code_simp
  have b2: "part_size declared_five = 0" by code_simp
  have "feed declared_five ''hello!'' CRLF = Inl (MultipartError BodyExceedsLength)
          \<longleftrightarrow> \<not> (''hello!'' = [] \<and> CRLF = [])
              \<and> 5 < part_size declared_five + int (length ''hello!'') + int (length (buf declared_five))"
    using body_length_checked [OF h1 h2 h3, of "''hello!''" CRLF] by (rule conjunct1)
  then have e1: "feed declared_five ''hello!'' CRLF = Inl (MultipartError BodyExceedsLength)"
    unfolding b1 b2 by simp
  have "feed declared_five ''hello'' CRLF = Inl (MultipartError BodyExceedsLength)
          \<longleftrightarrow> \<not> (''hello'' = [] \<and> CRLF = [])
              \<and> 5 < part_size declared_five + int (length ''hello'') + int (length (buf declared_five))"
    using body_length_checked [OF h1 h2 h3, of "''hello''" CRLF] by (rule conjunct1)
  then have e2: "feed declared_five ''hello'' CRLF \<noteq> Inl (MultipartError BodyExceedsLength)"
    unfolding b1 b2 by simp
  from h1 h2 h3 e1 e2 show ?thesis by blast
qed

text \<open>
  Claim C5. A part's body sink goes from memory to disk and never back. A feed call that
  finds the sink in memory moves it to disk exactly when it writes something and the size
  it reaches is above \<open>memfile_limit\<close>; the new sink then holds every byte written so far,
  and later writes are appended to it. Stated for one \<open>feed\<close> call on a part whose size
  counts the bytes of its sink (\<open>body_wf\<close>, true of a new part and kept by every call) and
  whose \<open>buffer_size\<close> is not zero, as for every part the parser creates (the constructor
  refuses a \<open>buffer_size\<close> below 6): with \<open>buffer_size = 0\<close> the copy loop reads nothing.
\<close>

theorem spill_once:
  assumes "body_wf p" and "part.buffer_size p \<noteq> 0" and "feed p ln nl = Inr p'"
  shows "body_wf p' \<and> part.buffer_size p' \<noteq> 0
       \<and> (\<forall>f. part_file p = Some f \<longrightarrow>
             (\<exists>f'. part_file p' = Some f'
                \<and> content f' = content f @ (if ln = [] \<and> nl = [] then [] else buf p @ ln)
                \<and> (kind f = TemporaryFile \<longrightarrow> kind f' = TemporaryFile)
                \<and> (kind f = BytesIO \<longrightarrow>
                      (kind f' = TemporaryFile
                         \<longleftrightarrow> \<not> (ln = [] \<and> nl = []) \<and> part.memfile_limit p < part_size p'))))
       \<and> (part_file p = None \<longrightarrow>
             (\<forall>f'. part_file p' = Some f' \<longrightarrow> kind f' = BytesIO \<and> content f' = []))"
proof (cases "part_file p")
  case None
  with assms(3) have wh: "write_header p ln nl = Inr p'" by (simp add: feed_def)
  note h = write_header_file [OF wh]
  from assms(1) None have "part_size p = 0" by (simp add: body_wf_def)
  with h assms(2) None show ?thesis by (auto simp: body_wf_def new_sink_def)
next
  case (Some f)
  with assms(3) have wb: "write_body p ln nl = Inr p'" by (simp add: feed_def)
  from assms(1) Some have wf: "pos f = length (content f)" "part_size p = int (length (content f))"
    by (simp_all add: body_wf_def)
  show ?thesis
  proof (cases "ln = [] \<and> nl = []")
    case True
    then have "p' = p" using wb write_body_noop [of ln nl p] by simp
    with True Some assms(1,2) show ?thesis by (cases "kind f") auto
  next
    case ne: False
    obtain N where cl: "part.content_length p = Some N"
      using wb Some ne by (cases "part.content_length p") (auto simp: write_body_def Let_def)
    have ok: "\<not> (0 < N \<and> N < part_size p + int (length ln) + int (length (buf p)))"
      using wb write_body_too_long [OF Some cl ne] by auto
    note r = write_body_ok [OF Some cl ne ok wf assms(2)]
    with wb have p': "p' = p\<lparr>part_size := part_size p + int (length ln) + int (length (buf p)), buf := nl,
            part_file := Some
              (if part.memfile_limit p < part_size p + int (length ln) + int (length (buf p))
                  \<and> kind f = BytesIO
               then \<lparr>kind = TemporaryFile, content = content f @ buf p @ ln,
                     pos = length (content f @ buf p @ ln), failing = False\<rparr>
               else f\<lparr>content := content f @ buf p @ ln,
                      pos := length (content f @ buf p @ ln)\<rparr>)\<rparr>" by simp
    show ?thesis using Some ne wf assms(2)
      by (cases "kind f") (auto simp: p' body_wf_def)
  qed
qed

theorem spill_once_witness:
  "body_wf small_limit \<and> part.buffer_size small_limit \<noteq> 0
   \<and> map_option kind (part_file small_limit) = Some BytesIO
   \<and> feed small_limit ''hello'' CRLF = Inr (projr (feed small_limit ''hello'' CRLF))
   \<and> map_option kind (part_file (projr (feed small_limit ''hello'' CRLF))) = Some TemporaryFile
   \<and> map_option content (part_file (projr (feed small_limit ''hello'' CRLF))) = Some ''hello''"
proof -
  have h1: "body_wf small_limit" by code_simp
  have h2: "part.buffer_size small_limit \<noteq> 0" by code_simp
  have "\<not> isl (feed small_limit ''hello'' CRLF)" by code_simp
  then have h3: "feed small_limit ''hello'' CRLF = Inr (projr (feed small_limit ''hello'' CRLF))"
    by simp
  have f: "part_file small_limit = Some (new_sink BytesIO)" by code_simp
  have k: "map_option kind (part_file (projr (feed small_limit ''hello'' CRLF))) = Some TemporaryFile"
    by code_simp
  have "\<forall>f. part_file small_limit = Some f \<longrightarrow>
          (\<exists>f'. part_file (projr (feed small_limit ''hello'' CRLF)) = Some f'
             \<and> content f' = content f @ (if ''hello'' = [] \<and> CRLF = [] then [] else buf small_limit @ ''hello'')
             \<and> (kind f = TemporaryFile \<longrightarrow> kind f' = TemporaryFile)
             \<and> (kind f = BytesIO \<longrightarrow>
                   (kind f' = TemporaryFile
                      \<longleftrightarrow> \<not> (''hello'' = [] \<and> CRLF = [])
                          \<and> part.memfile_limit small_limit < part_size (projr (feed small_limit ''hello'' CRLF)))))"
    using spill_once [OF h1 h2 h3] by blast
  moreover have "buf small_limit = []" by code_simp
  ultimately show ?thesis using f h1 h2 h3 k by (auto simp: new_sink_def)
qed

text \<open>
  Claim C4. The resource limits are checked after every line that is fed to the current
  part: the turn of the loop for a line raises "Memory limit reached" exactly when the
  line was fed, the part is in memory afterwards and its size plus \<open>mem_used\<close> exceeds
  \<open>mem_limit\<close>, and "Disk limit reached" exactly when the part is not in memory afterwards
  and its size plus \<open>disk_used\<close> exceeds \<open>disk_limit\<close>. The exception leaves \<open>_iterparse\<close>
  with the stream as it was when the line was handed over, so nothing more is read; a line
  that passes the check leaves the counters as they were and the loop goes on to the next
  line. The counters are cumulative: at a separator the size of the finished part is added
  to \<open>mem_used\<close> or to \<open>disk_used\<close>, the generator is suspended with the new counters and
  resumes with them for the next part, so that a suspended generator always carries the
  totals of the parts it has yielded, and the parts that \<open>parts\<close> collects never exceed
  \<open>mem_limit\<close> in memory nor \<open>disk_limit\<close> on disk.
\<close>

theorem limits_checked_per_line:
  "(loop_body P mem_used disk_used is_tail cur ln nl = Raised (MultipartError MemoryLimit)
      \<longleftrightarrow> \<not> (ln = terminator P \<and> \<not> is_tail) \<and> \<not> (ln = separator P \<and> \<not> is_tail)
          \<and> (\<exists>cur'. feed cur ln nl = Inr cur' \<and> is_buffered cur'
                \<and> mem_limit P < part_size cur' + mem_used))
   \<and> (loop_body P mem_used disk_used is_tail cur ln nl = Raised (MultipartError DiskLimit)
      \<longleftrightarrow> \<not> (ln = terminator P \<and> \<not> is_tail) \<and> \<not> (ln = separator P \<and> \<not> is_tail)
          \<and> (\<exists>cur'. feed cur ln nl = Inr cur' \<and> \<not> is_buffered cur'
                \<and> disk_limit P < part_size cur' + disk_used))
   \<and> (\<forall>li st li' st' ln0 e.
         lines_next (buffer_size P) li st = (Inr (Some (ln, nl)), li', st')
         \<and> loop_body P mem_used disk_used is_tail cur ln nl = Raised e
         \<longrightarrow> parse_loop P li st mem_used disk_used is_tail cur ln0 = (Raise e, Finished, st'))
   \<and> (\<forall>li st li' st' ln0 is_tail' cur'.
         lines_next (buffer_size P) li st = (Inr (Some (ln, nl)), li', st')
         \<and> loop_body P mem_used disk_used is_tail cur ln nl = Continue is_tail' cur'
         \<longrightarrow> feed cur ln nl = Inr cur'
             \<and> parse_loop P li st mem_used disk_used is_tail cur ln0
                 = parse_loop P li' st' mem_used disk_used is_tail' cur' ln)
   \<and> (\<forall>f. ln = separator P \<and> \<not> is_tail \<and> part_file cur = Some f
         \<longrightarrow> loop_body P mem_used disk_used is_tail cur ln nl
               = YieldNext (cur\<lparr>part_file := Some (sink_seek f 0)\<rparr>)
                   (if is_buffered cur then mem_used + part_size cur else mem_used)
                   (if is_buffered cur then disk_used else disk_used + part_size cur))
   \<and> (\<forall>li st li' st' ln0 p m' d'.
         lines_next (buffer_size P) li st = (Inr (Some (ln, nl)), li', st')
         \<and> loop_body P mem_used disk_used is_tail cur ln nl = YieldNext p m' d'
         \<longrightarrow> parse_loop P li st mem_used disk_used is_tail cur ln0
                 = (Yield p, AfterSeparator li' m' d' is_tail ln, st')
             \<and> (\<forall>st''. iterparse_next P (AfterSeparator li' m' d' is_tail ln) st''
                          = parse_loop P li' st'' m' d' is_tail (new_part P) ln))
   \<and> (\<forall>g st acc p g' st'.
         gen_counts P g acc \<and> iterparse_next P g st = (Yield p, g', st')
         \<longrightarrow> gen_counts P g' (acc @ [p]))
   \<and> (\<forall>st0 b clen dl ml mfl bs cs ys e P'.
         MultipartParser st0 b clen dl ml mfl bs cs = Inr P \<and> parts P = ((ys, e), P')
         \<longrightarrow> gen_counts P NotStarted []
             \<and> mem_total ys \<le> mem_limit P \<and> disk_total ys \<le> disk_limit P)"
proof -
  have a: "loop_body P mem_used disk_used is_tail cur ln nl = Raised (MultipartError MemoryLimit)
      \<longleftrightarrow> \<not> (ln = terminator P \<and> \<not> is_tail) \<and> \<not> (ln = separator P \<and> \<not> is_tail)
          \<and> (\<exists>cur'. feed cur ln nl = Inr cur' \<and> is_buffered cur'
                \<and> mem_limit P < part_size cur' + mem_used)"
    using feed_error_kinds [of cur ln nl]
    by (auto simp: loop_body_def Let_def split: option.splits sum.splits if_splits)
  have b: "loop_body P mem_used disk_used is_tail cur ln nl = Raised (MultipartError DiskLimit)
      \<longleftrightarrow> \<not> (ln = terminator P \<and> \<not> is_tail) \<and> \<not> (ln = separator P \<and> \<not> is_tail)
          \<and> (\<exists>cur'. feed cur ln nl = Inr cur' \<and> \<not> is_buffered cur'
                \<and> disk_limit P < part_size cur' + disk_used)"
    using feed_error_kinds [of cur ln nl]
    by (auto simp: loop_body_def Let_def split: option.splits sum.splits if_splits)
  have c: "parse_loop P li st mem_used disk_used is_tail cur ln0 = (Raise e, Finished, st')"
    if "lines_next (buffer_size P) li st = (Inr (Some (ln, nl)), li', st')"
      and "loop_body P mem_used disk_used is_tail cur ln nl = Raised e" for li st li' st' ln0 e
    using that by (subst parse_loop.simps) simp
  have d: "feed cur ln nl = Inr cur'
             \<and> parse_loop P li st mem_used disk_used is_tail cur ln0
                 = parse_loop P li' st' mem_used disk_used is_tail' cur' ln"
    if "lines_next (buffer_size P) li st = (Inr (Some (ln, nl)), li', st')"
      and "loop_body P mem_used disk_used is_tail cur ln nl = Continue is_tail' cur'"
    for li st li' st' ln0 is_tail' cur'
  proof
    show "feed cur ln nl = Inr cur'" using that(2) loop_body_Continue by blast
    show "parse_loop P li st mem_used disk_used is_tail cur ln0
                 = parse_loop P li' st' mem_used disk_used is_tail' cur' ln"
      using that by (subst parse_loop.simps) simp
  qed
  have s: "loop_body P mem_used disk_used is_tail cur ln nl
               = YieldNext (cur\<lparr>part_file := Some (sink_seek f 0)\<rparr>)
                   (if is_buffered cur then mem_used + part_size cur else mem_used)
                   (if is_buffered cur then disk_used else disk_used + part_size cur)"
    if "ln = separator P \<and> \<not> is_tail \<and> part_file cur = Some f" for f
    using that separator_not_terminator [of P] by (simp add: loop_body_def Let_def)
  have y: "parse_loop P li st mem_used disk_used is_tail cur ln0
                 = (Yield p, AfterSeparator li' m' d' is_tail ln, st')
             \<and> (\<forall>st''. iterparse_next P (AfterSeparator li' m' d' is_tail ln) st''
                          = parse_loop P li' st'' m' d' is_tail (new_part P) ln)"
    if "lines_next (buffer_size P) li st = (Inr (Some (ln, nl)), li', st')"
      and "loop_body P mem_used disk_used is_tail cur ln nl = YieldNext p m' d'"
    for li st li' st' ln0 p m' d'
  proof
    show "parse_loop P li st mem_used disk_used is_tail cur ln0
                 = (Yield p, AfterSeparator li' m' d' is_tail ln, st')"
      using that by (subst parse_loop.simps) simp
    show "\<forall>st''. iterparse_next P (AfterSeparator li' m' d' is_tail ln) st''
                          = parse_loop P li' st'' m' d' is_tail (new_part P) ln"
      by (simp add: iterparse_next_def)
  qed
  have g: "gen_counts P g' (acc @ [p])"
    if "gen_counts P g acc \<and> iterparse_next P g st = (Yield p, g', st')" for g st acc p g' st'
    using that iterparse_next_counts by blast
  have t: "gen_counts P NotStarted []
             \<and> mem_total ys \<le> mem_limit P \<and> disk_total ys \<le> disk_limit P"
    if "MultipartParser st0 b clen dl ml mfl bs cs = Inr P \<and> parts P = ((ys, e), P')"
    for st0 b clen dl ml mfl bs cs ys e P'
  proof -
    from that have mp: "MultipartParser st0 b clen dl ml mfl bs cs = Inr P"
      and pp: "parts P = ((ys, e), P')" by simp_all
    note cl = constructed_limits [OF mp]
    have "gen_counts P NotStarted []"
      using cl by (simp add: gen_counts_def mem_total_def disk_total_def)
    with parts_totals [OF mp pp] show ?thesis by simp
  qed
  have C: "\<forall>li st li' st' ln0 e.
         lines_next (buffer_size P) li st = (Inr (Some (ln, nl)), li', st')
         \<and> loop_body P mem_used disk_used is_tail cur ln nl = Raised e
         \<longrightarrow> parse_loop P li st mem_used disk_used is_tail cur ln0 = (Raise e, Finished, st')"
    using c by blast
  have D: "\<forall>li st li' st' ln0 is_tail' cur'.
         lines_next (buffer_size P) li st = (Inr (Some (ln, nl)), li', st')
         \<and> loop_body P mem_used disk_used is_tail cur ln nl = Continue is_tail' cur'
         \<longrightarrow> feed cur ln nl = Inr cur'
             \<and> parse_loop P li st mem_used disk_used is_tail cur ln0
                 = parse_loop P li' st' mem_used disk_used is_tail' cur' ln"
    using d by blast
  have S: "\<forall>f. ln = separator P \<and> \<not> is_tail \<and> part_file cur = Some f
         \<longrightarrow> loop_body P mem_used disk_used is_tail cur ln nl
               = YieldNext (cur\<lparr>part_file := Some (sink_seek f 0)\<rparr>)
                   (if is_buffered cur then mem_used + part_size cur else mem_used)
                   (if is_buffered cur then disk_used else disk_used + part_size cur)"
    using s by blast
  have Y: "\<forall>li st li' st' ln0 p m' d'.
         lines_next (buffer_size P) li st = (Inr (Some (ln, nl)), li', st')
         \<and> loop_body P mem_used disk_used is_tail cur ln nl = YieldNext p m' d'
         \<longrightarrow> parse_loop P li st mem_used disk_used is_tail cur ln0
                 = (Yield p, AfterSeparator li' m' d' is_tail ln, st')
             \<and> (\<forall>st''. iterparse_next P (AfterSeparator li' m' d' is_tail ln) st''
                          = parse_loop P li' st'' m' d' is_tail (new_part P) ln)"
    using y by blast
  have G: "\<forall>g st acc p g' st'.
         gen_counts P g acc \<and> iterparse_next P g st = (Yield p, g', st')
         \<longrightarrow> gen_counts P g' (acc @ [p])"
    using g by blast
  have T: "\<forall>st0 b clen dl ml mfl bs cs ys e P'.
         MultipartParser st0 b clen dl ml mfl bs cs = Inr P \<and> parts P = ((ys, e), P')
         \<longrightarrow> gen_counts P NotStarted []
             \<and> mem_total ys \<le> mem_limit P \<and> disk_total ys \<le> disk_limit P"
    using t by blast
  show ?thesis
    apply (intro conjI)
           apply (rule a)
          apply (rule b)
         apply (rule C)
        apply (rule D)
       apply (rule S)
      apply (rule Y)
     apply (rule G)
    apply (rule T)
    done
qed


theorem limits_checked_per_line_witness:
  "MultipartParser \<lparr>data = budget_stream, reads = 0\<rparr> ''B''
       (- 1) (2 ^ 30) 50 (2 ^ 18) (2 ^ 16) ''latin1'' = Inr budget_parser
   \<and> mem_limit budget_parser = 50
   \<and> (case parts budget_parser of
         ((ys, e), P') \<Rightarrow>
           length ys = 1 \<and> part_size (hd ys) = 30 \<and> is_buffered (hd ys)
           \<and> e = Some (MultipartError MemoryLimit)
           \<and> reads (stream P') = 4 \<and> data (stream P') \<noteq> [])
   \<and> mem_total (fst (fst (parts budget_parser))) \<le> mem_limit budget_parser
   \<and> (case iterparse_next budget_parser NotStarted \<lparr>data = budget_stream, reads = 0\<rparr> of
         (Yield p, AfterSeparator li m d t ln, s) \<Rightarrow> m = 30 \<and> d = 0 \<and> part_size p = 30
       | _ \<Rightarrow> False)
   \<and> loop_body budget_parser 30 0 False second_part (replicate 20 (CHR ''z'')) CRLF
        \<noteq> Raised (MultipartError MemoryLimit)
   \<and> loop_body budget_parser 30 0 False second_part (replicate 21 (CHR ''z'')) CRLF
        = Raised (MultipartError MemoryLimit)
   \<and> parse_loop budget_parser
        \<lparr>maxread = - 151, buffer = replicate 20 (CHR ''z''), pending = [], at_eof = False\<rparr>
        \<lparr>data = drop_int 150 budget_stream, reads = 3\<rparr> 30 0 False second_part []
        = (Raise (MultipartError MemoryLimit), Finished,
           \<lparr>data = drop_int 200 budget_stream, reads = 4\<rparr>)
   \<and> drop_int 200 budget_stream \<noteq> []
   \<and> snd (iterparse_next budget_parser NotStarted \<lparr>data = budget_stream, reads = 0\<rparr>)
        = (AfterSeparator
             \<lparr>maxread = - 101, buffer = ''Content-Dispos'', pending = [], at_eof = False\<rparr>
             30 0 False ''--B'',
           \<lparr>data = drop_int 100 budget_stream, reads = 2\<rparr>)
   \<and> iterparse_next budget_parser
        (AfterSeparator
           \<lparr>maxread = - 101, buffer = ''Content-Dispos'', pending = [], at_eof = False\<rparr>
           30 0 False ''--B'')
        \<lparr>data = drop_int 100 budget_stream, reads = 2\<rparr>
        = (Raise (MultipartError MemoryLimit), Finished,
           \<lparr>data = drop_int 200 budget_stream, reads = 4\<rparr>)"
proof -
  let ?P = budget_parser
  let ?l20 = "replicate 20 (CHR ''z'')"
  let ?l21 = "replicate 21 (CHR ''z'')"
  let ?li = "\<lparr>maxread = - 151, buffer = replicate 20 (CHR ''z''), pending = [], at_eof = False\<rparr>"
  let ?st = "\<lparr>data = drop_int 150 budget_stream, reads = 3\<rparr>"
  let ?li' = "\<lparr>maxread = - 201, buffer = replicate 5 (CHR ''w''),
               pending = [replicate 40 (CHR ''w'') @ CRLF], at_eof = False\<rparr>"
  let ?st' = "\<lparr>data = drop_int 200 budget_stream, reads = 4\<rparr>"
  have "\<not> isl (MultipartParser \<lparr>data = budget_stream, reads = 0\<rparr> ''B''
              (- 1) (2 ^ 30) 50 (2 ^ 18) (2 ^ 16) ''latin1'')" by code_simp
  then have mk: "MultipartParser \<lparr>data = budget_stream, reads = 0\<rparr> ''B''
       (- 1) (2 ^ 30) 50 (2 ^ 18) (2 ^ 16) ''latin1'' = Inr ?P"
    by (simp add: budget_parser_def)
  have m: "mem_limit ?P = 50" by code_simp
  have ev: "case parts ?P of
         ((ys, e), P') \<Rightarrow>
           length ys = 1 \<and> part_size (hd ys) = 30 \<and> is_buffered (hd ys)
           \<and> e = Some (MultipartError MemoryLimit)
           \<and> reads (stream P') = 4 \<and> data (stream P') \<noteq> []"
    by code_simp
  have gs: "case iterparse_next ?P NotStarted \<lparr>data = budget_stream, reads = 0\<rparr> of
         (Yield p, AfterSeparator li m d t ln, s) \<Rightarrow> m = 30 \<and> d = 0 \<and> part_size p = 30
       | _ \<Rightarrow> False"
    by code_simp
  have n20: "\<not> isl (feed second_part ?l20 CRLF)" by code_simp
  have s20: "part_size (projr (feed second_part ?l20 CRLF)) = 20" by code_simp
  have n21: "\<not> isl (feed second_part ?l21 CRLF)" by code_simp
  have s21: "part_size (projr (feed second_part ?l21 CRLF)) = 21" by code_simp
  have b21: "is_buffered (projr (feed second_part ?l21 CRLF))" by code_simp
  have t21: "?l21 \<noteq> terminator ?P" "?l21 \<noteq> separator ?P" by code_simp+
  have f20: "feed second_part ?l20 CRLF = Inr (projr (feed second_part ?l20 CRLF))"
    using n20 by simp
  have f21: "feed second_part ?l21 CRLF = Inr (projr (feed second_part ?l21 CRLF))"
    using n21 by simp
  have ln: "lines_next (buffer_size ?P) ?li ?st = (Inr (Some (?l21, CRLF)), ?li', ?st')"
    by code_simp
  have rest: "drop_int 200 budget_stream \<noteq> []" by code_simp
  note thm20 = limits_checked_per_line [of ?P 30 0 False second_part ?l20 CRLF]
  note thm21 = limits_checked_per_line [of ?P 30 0 False second_part ?l21 CRLF]
  note mem20 = thm20 [THEN conjunct1]
  note mem21 = thm21 [THEN conjunct1]
  note raise21 = thm21 [THEN conjunct2, THEN conjunct2, THEN conjunct1]
  note total21 = thm21 [THEN conjunct2, THEN conjunct2, THEN conjunct2, THEN conjunct2,
      THEN conjunct2, THEN conjunct2, THEN conjunct2]
  have r20: "loop_body ?P 30 0 False second_part ?l20 CRLF \<noteq> Raised (MultipartError MemoryLimit)"
  proof
    assume "loop_body ?P 30 0 False second_part ?l20 CRLF = Raised (MultipartError MemoryLimit)"
    with mem20 obtain c where "feed second_part ?l20 CRLF = Inr c" "mem_limit ?P < part_size c + 30"
      by blast
    with f20 s20 m show False by simp
  qed
  have "\<exists>c. feed second_part ?l21 CRLF = Inr c \<and> is_buffered c \<and> mem_limit ?P < part_size c + 30"
    using f21 b21 s21 m by (intro exI [of _ "projr (feed second_part ?l21 CRLF)"]) simp
  with mem21 t21 have r21:
    "loop_body ?P 30 0 False second_part ?l21 CRLF = Raised (MultipartError MemoryLimit)" by blast
  from raise21 ln r21 have pl:
    "parse_loop ?P ?li ?st 30 0 False second_part [] = (Raise (MultipartError MemoryLimit), Finished, ?st')"
    by blast
  let ?li1 = "\<lparr>maxread = - 101, buffer = ''Content-Dispos'', pending = [], at_eof = False\<rparr>"
  let ?st1 = "\<lparr>data = drop_int 100 budget_stream, reads = 2\<rparr>"
  let ?li2 = "\<lparr>maxread = - 151, buffer = replicate 20 (CHR ''z''), pending = [CRLF],
               at_eof = False\<rparr>"
  let ?hdr = "''Content-Disposition: form-data; name='' @ [DQ] @ ''b'' @ [DQ]"
  let ?c1 = "projr (feed (new_part ?P) ?hdr CRLF)"
  have g1: "snd (iterparse_next ?P NotStarted \<lparr>data = budget_stream, reads = 0\<rparr>)
        = (AfterSeparator ?li1 30 0 False ''--B'', ?st1)"
    by code_simp
  have ln1: "lines_next (buffer_size ?P) ?li1 ?st1 = (Inr (Some (?hdr, CRLF)), ?li2, ?st)"
    by code_simp
  have ln2: "lines_next (buffer_size ?P) ?li2 ?st = (Inr (Some ([], CRLF)), ?li, ?st)"
    by code_simp
  have k1: "case loop_body ?P 30 0 False (new_part ?P) ?hdr CRLF of
              Continue t c \<Rightarrow> True | _ \<Rightarrow> False"
    by code_simp
  have k2: "case loop_body ?P 30 0 False ?c1 [] CRLF of
              Continue t c \<Rightarrow> True | _ \<Rightarrow> False"
    by code_simp
  from k1 obtain t1 c1 where lb1: "loop_body ?P 30 0 False (new_part ?P) ?hdr CRLF = Continue t1 c1"
    by (cases "loop_body ?P 30 0 False (new_part ?P) ?hdr CRLF") simp_all
  from loop_body_Continue [OF lb1] have c1: "c1 = ?c1" and t1: "t1 = False" by simp_all
  from k2 obtain t2 c2 where lb2: "loop_body ?P 30 0 False ?c1 [] CRLF = Continue t2 c2"
    by (cases "loop_body ?P 30 0 False ?c1 [] CRLF") simp_all
  from loop_body_Continue [OF lb2] have c2: "c2 = second_part" and t2: "t2 = False"
    by (simp_all add: second_part_def)
  note step1 = limits_checked_per_line [of ?P 30 0 False "new_part ?P" ?hdr CRLF,
      THEN conjunct2, THEN conjunct2, THEN conjunct2, THEN conjunct1]
  note step2 = limits_checked_per_line [of ?P 30 0 False ?c1 "[]" CRLF,
      THEN conjunct2, THEN conjunct2, THEN conjunct2, THEN conjunct1]
  from step1 ln1 lb1 have
    "parse_loop ?P ?li1 ?st1 30 0 False (new_part ?P) ''--B''
       = parse_loop ?P ?li2 ?st 30 0 t1 c1 ?hdr"
    by blast
  also have "\<dots> = parse_loop ?P ?li2 ?st 30 0 False ?c1 ?hdr" by (simp only: c1 t1)
  also from step2 ln2 lb2 have "\<dots> = parse_loop ?P ?li ?st 30 0 t2 c2 []" by blast
  also have "\<dots> = parse_loop ?P ?li ?st 30 0 False second_part []" by (simp only: c2 t2)
  also note pl
  finally have reach:
    "iterparse_next ?P (AfterSeparator ?li1 30 0 False ''--B'') ?st1
       = (Raise (MultipartError MemoryLimit), Finished, ?st')"
    by (simp add: iterparse_next_def)
  have pp: "parts ?P = ((fst (fst (parts ?P)), snd (fst (parts ?P))), snd (parts ?P))" by simp
  from total21 mk pp have tot: "mem_total (fst (fst (parts ?P))) \<le> mem_limit ?P" by blast
  show ?thesis
    by (rule conjI [OF mk conjI [OF m conjI [OF ev conjI [OF tot conjI [OF gs conjI [OF r20
          conjI [OF r21 conjI [OF pl conjI [OF rest conjI [OF g1 reach]]]]]]]]]])
qed

text \<open>
  Claim C2 (amended). When the line reader has read a chunk and the first line of the buffer
  plus the chunk is longer than the buffer size \<open>L\<close>, the line is cut at \<open>L\<close>, or at
  \<open>L - 1\<close> when it is exactly \<open>L + 1\<close> bytes long and ends in \<open>\r\n\<close>, so that \<open>\r\n\<close> is
  never cut in two (the rest is then \<open>\r\n\<close> itself). The head contains no line end
  and is the next pair yielded, with an empty terminator. The rest goes back into the
  list of lines right behind it as a line like any other: it is yielded later with the
  terminator its own ending gives it, or kept as the buffer when it is the last line of
  a chunk that carried data. \<open>0 \<le> L\<close> is true of every parser the constructor returns.
\<close>

theorem force_split_head:
  assumes L: "0 \<le> L" and pe: "pending li = []" and ne: "\<not> at_eof li"
    and rd: "stream_read st (if maxread li < 0 then L else min L (maxread li)) = (chunk, st')"
    and sl: "splitlines (buffer li @ chunk) = l0 # ls" and long: "L < int (length l0)"
  shows "\<exists>a b. a @ b = l0
     \<and> int (length a) = (if int (length l0) = L + 1 \<and> endswith l0 CRLF then L - 1 else L)
     \<and> CR \<notin> set a \<and> LF \<notin> set a \<and> b \<noteq> []
     \<and> (int (length l0) = L + 1 \<and> endswith l0 CRLF \<longrightarrow> b = CRLF)
     \<and> split_first_line L l0 ls = a # b # ls
     \<and> lines_next L li st =
         (Inr (Some (a, [])),
          li\<lparr>maxread := maxread li - int (length chunk),
             buffer := (if chunk \<noteq> [] then last (b # ls) else buffer li),
             pending := (if chunk \<noteq> [] then butlast (b # ls) else b # ls),
             at_eof := (chunk = [])\<rparr>,
          st')"
proof -
  from first_line_head [OF L sl long] obtain a b where ab:
    "split_first_line L l0 ls = a # b # ls" "a @ b = l0"
    "int (length a) = (if int (length l0) = L + 1 \<and> endswith l0 CRLF then L - 1 else L)"
    "CR \<notin> set a" "LF \<notin> set a" "b \<noteq> []"
    "int (length l0) = L + 1 \<and> endswith l0 CRLF \<longrightarrow> b = CRLF"
    by blast
  have cl: "classify a = (a, [])" using ab(4,5) by (rule classify_plain)
  let ?li1 = "li\<lparr>maxread := maxread li - int (length chunk)\<rparr>"
  have "lines_next L li st =
         (Inr (Some (a, [])),
          li\<lparr>maxread := maxread li - int (length chunk),
             buffer := (if chunk \<noteq> [] then last (b # ls) else buffer li),
             pending := (if chunk \<noteq> [] then butlast (b # ls) else b # ls),
             at_eof := (chunk = [])\<rparr>,
          st')"
  proof (cases "chunk = []")
    case True
    have "lines_next L li st = lines_next L (?li1\<lparr>pending := a # b # ls, at_eof := True\<rparr>) st'"
      using pe ne rd sl ab(1) True by (subst lines_next.simps) (simp add: Let_def)
    also have "\<dots> = (Inr (Some (classify a)),
        ?li1\<lparr>pending := a # b # ls, at_eof := True\<rparr>\<lparr>pending := b # ls\<rparr>, st')"
      by (subst lines_next.simps) simp
    finally show ?thesis using cl True by simp
  next
    case False
    have "lines_next L li st =
        lines_next L (?li1\<lparr>buffer := last (a # b # ls), pending := butlast (a # b # ls)\<rparr>) st'"
      using pe ne rd sl ab(1) False by (subst lines_next.simps) (simp add: Let_def)
    also have "\<dots> = (Inr (Some (classify a)),
        ?li1\<lparr>buffer := last (a # b # ls), pending := butlast (a # b # ls)\<rparr>
            \<lparr>pending := butlast (b # ls)\<rparr>, st')"
      by (subst lines_next.simps) simp
    finally show ?thesis using cl False ne by simp
  qed
  with ab show ?thesis by blast
qed

theorem force_split_head_witness:
  "(0::int) \<le> 7
   \<and> stream_read \<lparr>data = LF # ''x'', reads = 1\<rparr> 7 = (LF # ''x'', \<lparr>data = [], reads = 2\<rparr>)
   \<and> splitlines ((''abcdef'' @ [CR]) @ LF # ''x'') = [''abcdef'' @ CRLF, ''x'']
   \<and> fst (lines_next 7 \<lparr>maxread = - 1, buffer = ''abcdef'' @ [CR], pending = [], at_eof = False\<rparr>
              \<lparr>data = LF # ''x'', reads = 1\<rparr>) = Inr (Some (''abcdef'', []))"
proof -
  let ?li = "\<lparr>maxread = - 1, buffer = ''abcdef'' @ [CR], pending = [], at_eof = False\<rparr>"
  let ?st = "\<lparr>data = LF # ''x'', reads = 1\<rparr>"
  let ?l0 = "''abcdef'' @ CRLF"
  have h1: "(0::int) \<le> 7" by simp
  have h2: "pending ?li = []" by simp
  have h3: "\<not> at_eof ?li" by simp
  have rd0: "stream_read ?st 7 = (LF # ''x'', \<lparr>data = [], reads = 2\<rparr>)" by code_simp
  then have h4: "stream_read ?st (if maxread ?li < 0 then 7 else min 7 (maxread ?li))
                  = (LF # ''x'', \<lparr>data = [], reads = 2\<rparr>)" by simp
  have sl0: "splitlines ((''abcdef'' @ [CR]) @ LF # ''x'') = [?l0, ''x'']" by code_simp
  then have h5: "splitlines (buffer ?li @ LF # ''x'') = ?l0 # [''x'']" by simp
  have h6: "7 < int (length ?l0)" by simp
  have sp: "int (length ?l0) = 7 + 1 \<and> endswith ?l0 CRLF" by (simp add: endswith_def)
  from force_split_head [OF h1 h2 h3 h4 h5 h6] obtain a b r where
    ab: "a @ b = ?l0"
      "int (length a) = (if int (length ?l0) = 7 + 1 \<and> endswith ?l0 CRLF then 7 - 1 else 7)"
    and r: "lines_next 7 ?li ?st = (Inr (Some (a, [])), r)"
    by blast
  have "(if int (length ?l0) = 7 + 1 \<and> endswith ?l0 CRLF then (7::int) - 1 else 7) = 7 - 1"
    using sp by (rule if_P)
  with ab(2) have "int (length a) = 7 - 1" by (simp only:)
  then have "length a = 6" by simp
  with ab(1) have "a = take 6 ?l0" by (metis append_eq_conv_conj)
  then have "a = ''abcdef''" by simp
  with r have "fst (lines_next 7 ?li ?st) = Inr (Some (''abcdef'', []))" by simp
  with h1 rd0 sl0 show ?thesis by blast
qed

text \<open>
  Claim C2 as stated attributes the empty terminator to the split-off rest. With
  \<open>L = 7\<close>, the line \<open>abcdef\r\n\<close> is cut into \<open>abcdef\<close>, yielded with an empty
  terminator, and \<open>\r\n\<close>, yielded next as an empty line with the terminator \<open>\r\n\<close>;
  the line \<open>abcdefgh\r\n\<close> is cut into \<open>abcdefg\<close> and \<open>h\r\n\<close>, the latter yielded as
  \<open>h\<close> with the terminator \<open>\r\n\<close>.
\<close>

theorem remainder_keeps_its_line_end:
  "(case lines_next 7 (lineiter_start (- 1)) \<lparr>data = ''abcdef'' @ CRLF @ ''x'', reads = 0\<rparr> of
      (r1, li1, s1) \<Rightarrow>
        r1 = Inr (Some (''abcdef'', []))
        \<and> fst (lines_next 7 li1 s1) = Inr (Some ([], CRLF)))
   \<and> (case lines_next 7 (lineiter_start (- 1)) \<lparr>data = ''abcdefgh'' @ CRLF @ ''x'', reads = 0\<rparr> of
      (r1, li1, s1) \<Rightarrow>
        r1 = Inr (Some (''abcdefg'', []))
        \<and> fst (lines_next 7 li1 s1) = Inr (Some (''h'', CRLF)))
   \<and> split_first_line 7 (''abcdef'' @ CRLF) [''x''] = [''abcdef'', CRLF, ''x'']
   \<and> snd (classify CRLF) \<noteq> []"
  by code_simp

text \<open>
  Claim C6 (amended). \<open>parse_options_header\<close> never raises. A header value without \<open>;\<close>
  comes back lower-cased and stripped, with no options. Any other value is split at its
  first \<open>;\<close>, inside double quotes or not, into the primary token, returned as it is, and
  the option tail. The options are the given ones overridden by one entry per match of
  \<open>_re_option\<close> in the tail, a later match overriding an earlier one with the same key:
  the key is the lower-cased first group and the value is \<open>header_unquote\<close> of the second
  group, whatever the key is. Every match has a nonempty key without special characters
  and a value that is either a nonempty run of non-special characters or a string in
  double quotes, so \<open>header_unquote\<close> never meets the empty string, and text of the tail
  that is no such pair contributes no option.
\<close>

theorem parse_options_header_result:
  "\<exists>ctype opts. parse_options_header uni header os = Inr (ctype, opts)
     \<and> (CHR '';'' \<notin> set header \<longrightarrow>
          ctype = py_strip uni (py_lower uni header) \<and> opts = Map.empty)
     \<and> (CHR '';'' \<in> set header \<longrightarrow>
          (\<exists>tail. header = ctype @ CHR '';'' # tail \<and> CHR '';'' \<notin> set ctype
             \<and> opts = (case os of None \<Rightarrow> Map.empty | Some d \<Rightarrow> d)
                   ++ map_of (rev (map (\<lambda>(k, v). (py_lower uni k, projr (header_unquote v False)))
                                       (finditer True tail)))
             \<and> (\<forall>(k, v) \<in> set (finditer True tail).
                   k \<noteq> [] \<and> (\<forall>c \<in> set k. nonspecial c) \<and> v \<noteq> []
                   \<and> ((\<forall>c \<in> set v. nonspecial c)
                        \<or> hd v = DQ \<and> last v = DQ \<and> 2 \<le> length v)
                   \<and> header_unquote v (py_lower uni k = ''filename'')
                       = Inr (projr (header_unquote v False)))))"
proof (cases "CHR '';'' \<in> set header")
  case False
  then show ?thesis by (simp add: parse_options_header_def)
next
  case True
  let ?ctype = "fst (split_first (CHR '';'') header)"
  let ?tail = "snd (split_first (CHR '';'') header)"
  let ?init = "case os of None \<Rightarrow> Map.empty | Some d \<Rightarrow> d"
  let ?f = "\<lambda>(k, v). (py_lower uni k, projr (header_unquote v False))"
  note dc = split_first_decomp [OF True]
  have ne: "\<forall>(k, v) \<in> set (finditer True ?tail). v \<noteq> []"
    using finditer_nonempty by blast
  have so: "store_options uni (finditer True ?tail) ?init
              = Inr (?init ++ map_of (rev (map ?f (finditer True ?tail))))"
    using ne by (rule store_options_eq)
  have r: "parse_options_header uni header os
             = Inr (?ctype, ?init ++ map_of (rev (map ?f (finditer True ?tail))))"
    using True so by (simp add: parse_options_header_def Let_def case_prod_beta)
  have uq: "\<forall>(k, v) \<in> set (finditer True ?tail).
              k \<noteq> [] \<and> (\<forall>c \<in> set k. nonspecial c) \<and> v \<noteq> []
              \<and> ((\<forall>c \<in> set v. nonspecial c) \<or> hd v = DQ \<and> last v = DQ \<and> 2 \<le> length v)
              \<and> header_unquote v (py_lower uni k = ''filename'') = Inr (projr (header_unquote v False))"
  proof (clarify)
    fix k v assume m: "(k, v) \<in> set (finditer True ?tail)"
    note sh = finditer_shape [OF m]
    then have "v \<noteq> []" by simp
    then obtain u where u: "\<And>b. header_unquote v b = Inr u"
      using header_unquote_total by blast
    have "header_unquote v (py_lower uni k = ''filename'') = Inr (projr (header_unquote v False))"
      by (simp add: u)
    with sh show "k \<noteq> [] \<and> (\<forall>c \<in> set k. nonspecial c) \<and> v \<noteq> []
              \<and> ((\<forall>c \<in> set v. nonspecial c) \<or> hd v = DQ \<and> last v = DQ \<and> 2 \<le> length v)
              \<and> header_unquote v (py_lower uni k = ''filename'') = Inr (projr (header_unquote v False))"
      by simp
  qed
  from r dc uq True show ?thesis by blast
qed

theorem parse_options_header_result_witness:
  "CHR '';'' \<in> set disposition_example
   \<and> (\<exists>ctype opts tail.
         parse_options_header True disposition_example None = Inr (ctype, opts)
         \<and> disposition_example = ctype @ CHR '';'' # tail
         \<and> ctype = ''form-data'' \<and> opts ''name'' = Some ''a''
         \<and> opts ''filename'' = Some ''f.txt'' \<and> opts ''junk'' = None)"
proof -
  have s: "CHR '';'' \<in> set disposition_example" by code_simp
  have ev: "case parse_options_header True disposition_example None of
              Inl e \<Rightarrow> False
            | Inr (c, d) \<Rightarrow> c = ''form-data'' \<and> d ''name'' = Some ''a''
                \<and> d ''filename'' = Some ''f.txt'' \<and> d ''junk'' = None"
    by code_simp
  from parse_options_header_result [of True disposition_example None] s
  obtain ctype opts tail where
    r: "parse_options_header True disposition_example None = Inr (ctype, opts)"
    and d: "disposition_example = ctype @ CHR '';'' # tail"
    by blast
  from ev r have "ctype = ''form-data'' \<and> opts ''name'' = Some ''a''
                \<and> opts ''filename'' = Some ''f.txt'' \<and> opts ''junk'' = None"
    by simp
  with s r d show ?thesis by blast
qed

text \<open>
  Claim C6 as stated splits on the first \<open>;\<close> that is not quoted. The code splits on the
  first \<open>;\<close> of the value: of \<open>"a;b";c=d\<close> it returns the primary token \<open>"a\<close>, where the
  split on the first unquoted \<open>;\<close> gives \<open>"a;b"\<close>.
\<close>

theorem quoted_semicolon_splits:
  "map_sum id fst (parse_options_header False quoted_example None) = Inr [DQ, CHR ''a'']
   \<and> map_option fst (spec_split_unquoted False [] quoted_example) = Some ([DQ] @ ''a;b'' @ [DQ])
   \<and> [DQ, CHR ''a''] \<noteq> [DQ] @ ''a;b'' @ [DQ]"
  by code_simp

end
